theory Spec2Isabelle
  imports Main "HOL-Library.Multiset"
begin

section \<open>Python values: exceptions, indexing, ranges and loops\<close>

text \<open>
  The game logic of \<^verbatim>\<open>helpers.py\<close> works on a list of lists of integers that it
  updates in place. The embedding passes the table explicitly and returns the updated one.
  A Python exception is a value: \<open>Inl e\<close> is the raised exception \<open>e\<close>, \<open>Inr x\<close>
  the normal result \<open>x\<close>. Two exceptions can arise in the functions modelled here:
  \<^verbatim>\<open>IndexError\<close> from subscripting a list outside its range (and from
  \<^verbatim>\<open>random.choice\<close> on an empty sequence), and \<^verbatim>\<open>AssertionError\<close> from the
  \<^verbatim>\<open>assert direction in (...)\<close> statements.
\<close>

datatype py_error = IndexError | AssertionError

definition bindE :: "py_error + 'a \<Rightarrow> ('a \<Rightarrow> py_error + 'b) \<Rightarrow> py_error + 'b" where
  "bindE m f = (case m of Inl e \<Rightarrow> Inl e | Inr x \<Rightarrow> f x)"

text \<open>
  Subscripting \<^verbatim>\<open>xs[i]\<close>: a negative index counts from the end, anything outside
  \<open>-len \<dots> len-1\<close> raises. \<open>getitem\<close> reads, \<open>setitem\<close> is the assignment
  \<^verbatim>\<open>xs[i] = v\<close>.
\<close>

definition index_of :: "'a list \<Rightarrow> int \<Rightarrow> py_error + nat" where
  "index_of xs i =
     (if 0 \<le> i \<and> i < int (length xs) then Inr (nat i)
      else if - int (length xs) \<le> i \<and> i < 0 then Inr (nat (int (length xs) + i))
      else Inl IndexError)"

definition getitem :: "'a list \<Rightarrow> int \<Rightarrow> py_error + 'a" where
  "getitem xs i = bindE (index_of xs i) (\<lambda>j. Inr (xs ! j))"

definition setitem :: "'a list \<Rightarrow> int \<Rightarrow> 'a \<Rightarrow> py_error + 'a list" where
  "setitem xs i v = bindE (index_of xs i) (\<lambda>j. Inr (xs[j := v]))"

text \<open>
  \<^verbatim>\<open>range(start, stop, step)\<close> as the list of the integers it yields. The source only
  uses the steps \<open>1\<close> and \<open>-1\<close>; the step \<open>0\<close>, which Python rejects, does not
  occur.
\<close>

function py_range :: "int \<Rightarrow> int \<Rightarrow> int \<Rightarrow> int list" where
  "py_range start stop step =
     (if (0 < step \<and> start < stop) \<or> (step < 0 \<and> stop < start)
      then start # py_range (start + step) stop step
      else [])"
  by pat_completeness auto
termination
  by (relation "measure (\<lambda>(start, stop, step).
        nat (if 0 < step then stop - start else start - stop))") auto

text \<open>
  A \<^verbatim>\<open>for\<close> loop over a list of indices whose body updates a state and may raise:
  the first exception ends the loop. \<open>any_of\<close> is the loop
  \<^verbatim>\<open>for i in ...: if p(i): return True\<close> followed by \<^verbatim>\<open>return False\<close>.
\<close>

fun for_each :: "'i list \<Rightarrow> ('i \<Rightarrow> 's \<Rightarrow> py_error + 's) \<Rightarrow> 's \<Rightarrow> py_error + 's" where
  "for_each [] body s = Inr s"
| "for_each (i # rest) body s = bindE (body i s) (for_each rest body)"

fun any_of :: "'i list \<Rightarrow> ('i \<Rightarrow> py_error + bool) \<Rightarrow> py_error + bool" where
  "any_of [] p = Inr False"
| "any_of (i # rest) p = bindE (p i) (\<lambda>b. if b then Inr True else any_of rest p)"

section \<open>The table\<close>

text \<open>
  \<^verbatim>\<open>table[r][c]\<close> and \<^verbatim>\<open>table[r][c] = v\<close>. The rows built by
  \<^verbatim>\<open>new_table\<close> are four distinct list objects, so writing one row never changes
  another; the value model below relies on that.
\<close>

type_synonym table = "int list list"

definition new_table :: table where
  "new_table = [[0, 0, 0, 0], [0, 0, 0, 0], [0, 0, 0, 0], [0, 0, 0, 0]]"

definition get_cell :: "table \<Rightarrow> int \<Rightarrow> int \<Rightarrow> py_error + int" where
  "get_cell t r c = bindE (getitem t r) (\<lambda>line. getitem line c)"

definition set_cell :: "table \<Rightarrow> int \<Rightarrow> int \<Rightarrow> int \<Rightarrow> py_error + table" where
  "set_cell t r c v =
     bindE (getitem t r) (\<lambda>line. bindE (setitem line c v) (\<lambda>line'. setitem t r line'))"

text \<open>
  \<^verbatim>\<open>_get_empty_indexes\<close>: the positions holding \<open>0\<close>, row by row.
\<close>

definition get_empty_indexes :: "table \<Rightarrow> py_error + (int \<times> int) list" where
  "get_empty_indexes t =
     for_each (py_range 0 4 1) (\<lambda>row_idx.
       for_each (py_range 0 4 1) (\<lambda>col_idx indexes.
         bindE (get_cell t row_idx col_idx) (\<lambda>v.
           Inr (if v = 0 then indexes @ [(row_idx, col_idx)] else indexes)))) []"

section \<open>The merge and the move phases\<close>

text \<open>
  \<^verbatim>\<open>_horizontal_sum\<close>, \<^verbatim>\<open>_vertical_sum\<close>, \<^verbatim>\<open>_horizontal_move\<close> and
  \<^verbatim>\<open>_vertical_move\<close> all start with the same assignment
  \<^verbatim>\<open>idx_start, idx_end, iteration_factor = (0, 3, 1)\<close> when the direction is
  \<^verbatim>\<open>"a"\<close> (respectively \<^verbatim>\<open>"w"\<close>) and \<^verbatim>\<open>(3, 0, -1)\<close> otherwise.
  \<open>scan_bounds\<close> is that assignment, \<open>pivot_indices\<close> the range of the loop over
  \<^verbatim>\<open>idx\<close> and \<open>cursor_indices\<close> the range of the loop over \<^verbatim>\<open>cursor\<close>.
\<close>

definition scan_bounds :: "string \<Rightarrow> string \<Rightarrow> int \<times> int \<times> int" where
  "scan_bounds direction first =
     (if direction = first then (0, 3, 1) else (3, 0, - 1))"

definition pivot_indices :: "int \<times> int \<times> int \<Rightarrow> int list" where
  "pivot_indices bounds =
     (case bounds of (idx_start, idx_end, iteration_factor) \<Rightarrow>
        py_range idx_start idx_end iteration_factor)"

definition cursor_indices :: "int \<times> int \<times> int \<Rightarrow> int \<Rightarrow> int list" where
  "cursor_indices bounds idx =
     (case bounds of (idx_start, idx_end, iteration_factor) \<Rightarrow>
        py_range (idx + iteration_factor) (idx_end + iteration_factor) iteration_factor)"

text \<open>
  The cursor loop of the merge phase. It looks past empty blocks; on the first non-empty
  block it either merges (the block equals \<^verbatim>\<open>last\<close>, the value the pivot held when
  the loop started) and stops, or stops without a change. The state is the table and the
  running score \<^verbatim>\<open>sum\<close>.
\<close>

fun horizontal_sum_cursor ::
  "int \<Rightarrow> int \<Rightarrow> int \<Rightarrow> int list \<Rightarrow> table \<times> int \<Rightarrow> py_error + (table \<times> int)" where
  "horizontal_sum_cursor row idx last' [] (t, acc) = Inr (t, acc)"
| "horizontal_sum_cursor row idx last' (cursor # rest) (t, acc) =
     bindE (get_cell t row cursor) (\<lambda>current.
       if current = 0 then horizontal_sum_cursor row idx last' rest (t, acc)
       else if current = last' then
         bindE (get_cell t row idx) (\<lambda>v.
         bindE (set_cell t row idx (v * 2)) (\<lambda>t1.
         bindE (set_cell t1 row cursor 0) (\<lambda>t2.
         bindE (get_cell t2 row idx) (\<lambda>v2. Inr (t2, acc + v2)))))
       else Inr (t, acc))"

definition horizontal_sum :: "table \<Rightarrow> string \<Rightarrow> py_error + (table \<times> int)" where
  "horizontal_sum table direction =
     (if direction \<notin> set [''a'', ''d''] then Inl AssertionError
      else
        let bounds = scan_bounds direction ''a''
        in for_each (py_range 0 4 1) (\<lambda>row.
             for_each (pivot_indices bounds) (\<lambda>idx (t, acc).
               bindE (get_cell t row idx) (\<lambda>last'.
                 horizontal_sum_cursor row idx last'
                   (cursor_indices bounds idx)
                   (t, acc))))
           (table, 0))"

fun vertical_sum_cursor ::
  "int \<Rightarrow> int \<Rightarrow> int \<Rightarrow> int list \<Rightarrow> table \<times> int \<Rightarrow> py_error + (table \<times> int)" where
  "vertical_sum_cursor col idx last' [] (t, acc) = Inr (t, acc)"
| "vertical_sum_cursor col idx last' (cursor # rest) (t, acc) =
     bindE (get_cell t cursor col) (\<lambda>current.
       if current = 0 then vertical_sum_cursor col idx last' rest (t, acc)
       else if current = last' then
         bindE (get_cell t idx col) (\<lambda>v.
         bindE (set_cell t idx col (v * 2)) (\<lambda>t1.
         bindE (set_cell t1 cursor col 0) (\<lambda>t2.
         bindE (get_cell t2 idx col) (\<lambda>v2. Inr (t2, acc + v2)))))
       else Inr (t, acc))"

definition vertical_sum :: "table \<Rightarrow> string \<Rightarrow> py_error + (table \<times> int)" where
  "vertical_sum table direction =
     (if direction \<notin> set [''w'', ''s''] then Inl AssertionError
      else
        let bounds = scan_bounds direction ''w''
        in for_each (py_range 0 4 1) (\<lambda>col.
             for_each (pivot_indices bounds) (\<lambda>idx (t, acc).
               bindE (get_cell t idx col) (\<lambda>last'.
                 vertical_sum_cursor col idx last'
                   (cursor_indices bounds idx)
                   (t, acc))))
           (table, 0))"

text \<open>
  The move phase. A pivot that is not \<open>0\<close> is skipped (\<^verbatim>\<open>continue\<close>); an empty
  pivot is swapped with the first non-empty block the cursor finds. The state is the table
  and the flag \<^verbatim>\<open>movement\<close>.
\<close>

fun horizontal_move_cursor ::
  "int \<Rightarrow> int \<Rightarrow> int list \<Rightarrow> table \<times> bool \<Rightarrow> py_error + (table \<times> bool)" where
  "horizontal_move_cursor row idx [] (t, movement) = Inr (t, movement)"
| "horizontal_move_cursor row idx (cursor # rest) (t, movement) =
     bindE (get_cell t row cursor) (\<lambda>current.
       if current \<noteq> 0 then
         bindE (get_cell t row idx) (\<lambda>temp.
         bindE (get_cell t row cursor) (\<lambda>v.
         bindE (set_cell t row idx v) (\<lambda>t1.
         bindE (set_cell t1 row cursor temp) (\<lambda>t2. Inr (t2, True)))))
       else horizontal_move_cursor row idx rest (t, movement))"

definition horizontal_move :: "table \<Rightarrow> string \<Rightarrow> py_error + (table \<times> bool)" where
  "horizontal_move table direction =
     (if direction \<notin> set [''a'', ''d''] then Inl AssertionError
      else
        let bounds = scan_bounds direction ''a''
        in for_each (py_range 0 4 1) (\<lambda>row.
             for_each (pivot_indices bounds) (\<lambda>idx (t, movement).
               bindE (get_cell t row idx) (\<lambda>pivot.
                 if pivot \<noteq> 0 then Inr (t, movement)
                 else horizontal_move_cursor row idx
                   (cursor_indices bounds idx)
                   (t, movement))))
           (table, False))"

fun vertical_move_cursor ::
  "int \<Rightarrow> int \<Rightarrow> int list \<Rightarrow> table \<times> bool \<Rightarrow> py_error + (table \<times> bool)" where
  "vertical_move_cursor col idx [] (t, movement) = Inr (t, movement)"
| "vertical_move_cursor col idx (cursor # rest) (t, movement) =
     bindE (get_cell t cursor col) (\<lambda>current.
       if current \<noteq> 0 then
         bindE (get_cell t idx col) (\<lambda>temp.
         bindE (get_cell t cursor col) (\<lambda>v.
         bindE (set_cell t idx col v) (\<lambda>t1.
         bindE (set_cell t1 cursor col temp) (\<lambda>t2. Inr (t2, True)))))
       else vertical_move_cursor col idx rest (t, movement))"

definition vertical_move :: "table \<Rightarrow> string \<Rightarrow> py_error + (table \<times> bool)" where
  "vertical_move table direction =
     (if direction \<notin> set [''w'', ''s''] then Inl AssertionError
      else
        let bounds = scan_bounds direction ''w''
        in for_each (py_range 0 4 1) (\<lambda>col.
             for_each (pivot_indices bounds) (\<lambda>idx (t, movement).
               bindE (get_cell t idx col) (\<lambda>pivot.
                 if pivot \<noteq> 0 then Inr (t, movement)
                 else vertical_move_cursor col idx
                   (cursor_indices bounds idx)
                   (t, movement))))
           (table, False))"

section \<open>The public operations\<close>

text \<open>
  \<^verbatim>\<open>push_blocks\<close> returns the pair of the merge phase's result and the move phase's
  result; Python evaluates the tuple from left to right, so the move phase runs on the
  table the merge phase has left. The last branch is the \<^verbatim>\<open>case _\<close> of the source,
  which the assertion makes unreachable.
\<close>

definition push_blocks :: "table \<Rightarrow> string \<Rightarrow> py_error + (table \<times> int \<times> bool)" where
  "push_blocks table direction =
     (if direction \<notin> set [''W'', ''A'', ''S'', ''D''] then Inl AssertionError
      else if direction = ''A'' then
        bindE (horizontal_sum table ''a'') (\<lambda>(t1, score).
        bindE (horizontal_move t1 ''a'') (\<lambda>(t2, moved). Inr (t2, score, moved)))
      else if direction = ''D'' then
        bindE (horizontal_sum table ''d'') (\<lambda>(t1, score).
        bindE (horizontal_move t1 ''d'') (\<lambda>(t2, moved). Inr (t2, score, moved)))
      else if direction = ''W'' then
        bindE (vertical_sum table ''w'') (\<lambda>(t1, score).
        bindE (vertical_move t1 ''w'') (\<lambda>(t2, moved). Inr (t2, score, moved)))
      else if direction = ''S'' then
        bindE (vertical_sum table ''s'') (\<lambda>(t1, score).
        bindE (vertical_move t1 ''s'') (\<lambda>(t2, moved). Inr (t2, score, moved)))
      else Inr (table, 0, False))"

text \<open>
  \<^verbatim>\<open>random.choice(seq)\<close> raises on an empty sequence and otherwise returns
  \<^verbatim>\<open>seq[k]\<close> for a position \<open>k\<close> below the length drawn by the generator. The
  draw is a parameter: \<open>choice seq k\<close> is the outcome when the generator supplies
  \<open>k\<close>, reduced modulo the length. \<open>insert_block k1 k2\<close> is
  \<^verbatim>\<open>insert_block\<close> under the two draws it makes.
\<close>

definition choice :: "'a list \<Rightarrow> nat \<Rightarrow> py_error + 'a" where
  "choice seq k = (if seq = [] then Inl IndexError else Inr (seq ! (k mod length seq)))"

definition insert_block :: "nat \<Rightarrow> nat \<Rightarrow> table \<Rightarrow> py_error + table" where
  "insert_block k1 k2 table =
     bindE (get_empty_indexes table) (\<lambda>indexes.
       if indexes \<noteq> [] then
         bindE (choice indexes k1) (\<lambda>(row, col).
         bindE (choice [2, 4] k2) (\<lambda>v. set_cell table row col v))
       else Inr table)"

text \<open>
  \<^verbatim>\<open>can_move\<close> with its two local functions. \<^verbatim>\<open>a or b\<close> evaluates \<open>b\<close> only
  when \<open>a\<close> is false.
\<close>

definition can_move_horizontally :: "table \<Rightarrow> py_error + bool" where
  "can_move_horizontally table =
     any_of (py_range 0 4 1) (\<lambda>row.
       any_of (py_range 0 3 1) (\<lambda>col.
         bindE (get_cell table row col) (\<lambda>x.
         bindE (get_cell table row (col + 1)) (\<lambda>y. Inr (x = y)))))"

definition can_move_vertically :: "table \<Rightarrow> py_error + bool" where
  "can_move_vertically table =
     any_of (py_range 0 4 1) (\<lambda>col.
       any_of (py_range 0 3 1) (\<lambda>row.
         bindE (get_cell table row col) (\<lambda>x.
         bindE (get_cell table (row + 1) col) (\<lambda>y. Inr (x = y)))))"

definition can_move :: "table \<Rightarrow> py_error + bool" where
  "can_move table =
     bindE (get_empty_indexes table) (\<lambda>indexes.
       if indexes \<noteq> [] then Inr True
       else bindE (can_move_horizontally table) (\<lambda>h.
              if h then Inr True else can_move_vertically table))"

section \<open>Notions used to state the properties\<close>

text \<open>
  A well-formed table has four rows of four blocks. A valid block is \<open>0\<close> (empty) or a
  power of two that is at least \<open>2\<close>; \<open>is_power_of_two\<close> decides the latter by halving.
\<close>

definition wf_table :: "table \<Rightarrow> bool" where
  "wf_table t = (length t = 4 \<and> list_all (\<lambda>row. length row = 4) t)"

function is_power_of_two :: "int \<Rightarrow> bool" where
  "is_power_of_two v =
     (if v < 2 then v = 1 else v mod 2 = 0 \<and> is_power_of_two (v div 2))"
  by pat_completeness auto
termination
  by (relation "measure nat") auto

definition valid_block :: "int \<Rightarrow> bool" where
  "valid_block v = (v = 0 \<or> (2 \<le> v \<and> is_power_of_two v))"

definition table_invariant :: "table \<Rightarrow> bool" where
  "table_invariant t = (wf_table t \<and> list_all (list_all valid_block) t)"

definition grid_sum :: "table \<Rightarrow> int" where
  "grid_sum t = sum_list (map sum_list t)"

definition nonzeros :: "int list \<Rightarrow> int list" where
  "nonzeros l = filter (\<lambda>x. x \<noteq> 0) l"

text \<open>
  The columns of a table, read from the top: \<open>column t c\<close> is column \<open>c\<close>, and
  \<open>columns t\<close> is the table whose rows are the columns of \<open>t\<close>.
\<close>

definition column :: "table \<Rightarrow> nat \<Rightarrow> int list" where
  "column t c = map (\<lambda>row. row ! c) t"

definition columns :: "table \<Rightarrow> table" where
  "columns t = map (column t) [0, 1, 2, 3]"

definition set_column :: "table \<Rightarrow> nat \<Rightarrow> int list \<Rightarrow> table" where
  "set_column t c vs = map (\<lambda>(row, v). row[c := v]) (zip t vs)"

text \<open>
  The two calls \<^verbatim>\<open>push_blocks\<close> makes for a direction: the merge phase and the move
  (compaction) phase.
\<close>

definition merge_phase :: "table \<Rightarrow> string \<Rightarrow> py_error + (table \<times> int)" where
  "merge_phase table direction =
     (if direction = ''A'' then horizontal_sum table ''a''
      else if direction = ''D'' then horizontal_sum table ''d''
      else if direction = ''W'' then vertical_sum table ''w''
      else if direction = ''S'' then vertical_sum table ''s''
      else Inl AssertionError)"

definition compaction_phase :: "table \<Rightarrow> string \<Rightarrow> py_error + (table \<times> bool)" where
  "compaction_phase table direction =
     (if direction = ''A'' then horizontal_move table ''a''
      else if direction = ''D'' then horizontal_move table ''d''
      else if direction = ''W'' then vertical_move table ''w''
      else if direction = ''S'' then vertical_move table ''s''
      else Inl AssertionError)"

text \<open>
  The lines of a push: the rows for \<^verbatim>\<open>"A"\<close> (left) and \<^verbatim>\<open>"D"\<close> (right), the columns
  for \<^verbatim>\<open>"W"\<close> (up) and \<^verbatim>\<open>"S"\<close> (down). Left and up push toward index \<open>0\<close> of a
  line, right and down toward index \<open>3\<close>.
\<close>

definition horizontal :: "string \<Rightarrow> bool" where
  "horizontal direction = (direction = ''A'' \<or> direction = ''D'')"

definition forward :: "string \<Rightarrow> bool" where
  "forward direction = (direction = ''A'' \<or> direction = ''W'')"

definition lines :: "string \<Rightarrow> table \<Rightarrow> table" where
  "lines direction t = (if horizontal direction then t else columns t)"

text \<open>
  \<open>packed_front l l'\<close>: \<open>l'\<close> holds the non-empty blocks of \<open>l\<close>, in their order, from
  index \<open>0\<close> on, and zeros after them. \<open>packed_back\<close> packs them against the last index.
\<close>

definition packed_front :: "int list \<Rightarrow> int list \<Rightarrow> bool" where
  "packed_front l l' = (l' = nonzeros l @ replicate (length l - length (nonzeros l)) 0)"

definition packed_back :: "int list \<Rightarrow> int list \<Rightarrow> bool" where
  "packed_back l l' = (l' = replicate (length l - length (nonzeros l)) 0 @ nonzeros l)"

text \<open>
  \<open>changed_total l l'\<close> adds up, over the positions of a line, the new value of every
  block whose value has changed from \<open>l\<close> to \<open>l'\<close>; \<open>created old new\<close> does so over
  the rows of a table. In the merge phase a block changes either to \<open>0\<close> (it was absorbed)
  or to twice its value (it absorbed its neighbour), which is what \<open>absorbed_or_doubled\<close>
  says of one block, so \<open>created\<close> is then the total of the blocks made by merging.
\<close>

definition changed_total :: "int list \<Rightarrow> int list \<Rightarrow> int" where
  "changed_total l l' = sum_list (map (\<lambda>(v, v'). if v' \<noteq> v then v' else 0) (zip l l'))"

definition created :: "table \<Rightarrow> table \<Rightarrow> int" where
  "created old new = sum_list (map (\<lambda>(l, l'). changed_total l l') (zip old new))"

definition absorbed_or_doubled :: "int \<Rightarrow> int \<Rightarrow> bool" where
  "absorbed_or_doubled v v' = (v' = v \<or> (v \<noteq> 0 \<and> (v' = 0 \<or> v' = 2 * v)))"

text \<open>
  \<open>adjacent_equal l\<close>: two neighbouring blocks of the line are equal and not empty.
\<close>

fun adjacent_equal :: "int list \<Rightarrow> bool" where
  "adjacent_equal (x # y # ys) = ((x \<noteq> 0 \<and> x = y) \<or> adjacent_equal (y # ys))"
| "adjacent_equal _ = False"

section \<open>One line at a time\<close>

text \<open>
  What the two phases do to a single line, written toward index \<open>0\<close>. \<open>meets x ys\<close>: the
  first non-empty block of \<open>ys\<close> equals \<open>x\<close>. \<open>merge_cells pending l\<close> is the line after
  the merge phase, where \<open>pending\<close> says that the first non-empty block of \<open>l\<close> has been
  absorbed by a block before it; \<open>merge_gain\<close> is the score of the line. \<open>slide_line\<close> is
  the line after the move phase. \<open>toward\<close> turns a line function around for the pushes
  toward index \<open>3\<close>. These functions are compared with the loops of the source below.
\<close>

fun meets :: "int \<Rightarrow> int list \<Rightarrow> bool" where
  "meets x [] = False"
| "meets x (y # ys) = (if y = 0 then meets x ys else y = x)"

fun merge_cells :: "bool \<Rightarrow> int list \<Rightarrow> int list" where
  "merge_cells pending [] = []"
| "merge_cells True (x # xs) = 0 # merge_cells (x = 0) xs"
| "merge_cells False (x # xs) =
     (if meets x xs then x * 2 # merge_cells True xs else x # merge_cells False xs)"

fun merge_gain :: "bool \<Rightarrow> int list \<Rightarrow> int" where
  "merge_gain pending [] = 0"
| "merge_gain True (x # xs) = merge_gain (x = 0) xs"
| "merge_gain False (x # xs) =
     (if meets x xs then x * 2 + merge_gain True xs else merge_gain False xs)"

definition slide_line :: "int list \<Rightarrow> int list" where
  "slide_line l = filter (\<lambda>x. x \<noteq> 0) l @ replicate (length (filter (\<lambda>x. x = 0) l)) 0"

definition toward :: "string \<Rightarrow> (int list \<Rightarrow> int list) \<Rightarrow> int list \<Rightarrow> int list" where
  "toward direction f l = (if forward direction then f l else rev (f (rev l)))"

definition line_gain :: "string \<Rightarrow> int list \<Rightarrow> int" where
  "line_gain direction l = merge_gain False (if forward direction then l else rev l)"

section \<open>Basic facts\<close>

lemma bindE_Inr [simp]: "bindE (Inr x) f = f x"
  by (simp add: bindE_def)

lemma bindE_Inl [simp]: "bindE (Inl e) f = Inl e"
  by (simp add: bindE_def)

declare is_power_of_two.simps [simp del]

lemma py_range_rows: "py_range 0 4 1 = [0, 1, 2, 3]" "py_range 0 3 1 = [0, 1, 2]" "py_range 3 0 (- 1) = [3, 2, 1]"
  by (simp_all add: py_range.simps)

lemma py_range_cursors:
  "py_range 1 4 1 = [1, 2, 3]" "py_range 2 4 1 = [2, 3]" "py_range 3 4 1 = [3]"
  "py_range 2 (- 1) (- 1) = [2, 1, 0]" "py_range 1 (- 1) (- 1) = [1, 0]" "py_range 0 (- 1) (- 1) = [0]"
  by (simp_all add: py_range.simps)

lemma pivots_forward: "pivot_indices (0, 3, 1) = [0, 1, 2]"
  and pivots_backward: "pivot_indices (3, 0, - 1) = [3, 2, 1]"
  by (simp_all add: pivot_indices_def py_range_rows)

lemma cursors_forward:
  "cursor_indices (0, 3, 1) 0 = [1, 2, 3]" "cursor_indices (0, 3, 1) 1 = [2, 3]"
  "cursor_indices (0, 3, 1) 2 = [3]"
  by (simp_all add: cursor_indices_def py_range_cursors)

lemma cursors_backward:
  "cursor_indices (3, 0, - 1) 3 = [2, 1, 0]" "cursor_indices (3, 0, - 1) 2 = [1, 0]"
  "cursor_indices (3, 0, - 1) 1 = [0]"
  by (simp_all add: cursor_indices_def py_range_cursors)

lemma getitem_in_range: "0 \<le> i \<Longrightarrow> i < int (length xs) \<Longrightarrow> getitem xs i = Inr (xs ! nat i)"
  by (simp add: getitem_def index_of_def)

lemma setitem_in_range: "0 \<le> i \<Longrightarrow> i < int (length xs) \<Longrightarrow> setitem xs i v = Inr (xs[nat i := v])"
  by (simp add: setitem_def index_of_def)

lemma get_cell_in_range:
  "0 \<le> r \<Longrightarrow> r < int (length t) \<Longrightarrow> 0 \<le> c \<Longrightarrow> c < int (length (t ! nat r)) \<Longrightarrow>
   get_cell t r c = Inr (t ! nat r ! nat c)"
  by (simp add: get_cell_def getitem_in_range)

lemma set_cell_in_range:
  "0 \<le> r \<Longrightarrow> r < int (length t) \<Longrightarrow> 0 \<le> c \<Longrightarrow> c < int (length (t ! nat r)) \<Longrightarrow>
   set_cell t r c v = Inr (t[nat r := (t ! nat r)[nat c := v]])"
  by (simp add: set_cell_def getitem_in_range setitem_in_range)

lemma list_update_same_conv': "i < length xs \<Longrightarrow> (xs = xs[i := x]) = (xs ! i = x)"
  by (metis list_update_same_conv)

lemma length4E: "length l = 4 \<Longrightarrow> (\<And>a b c d. l = [a, b, c, d] \<Longrightarrow> P) \<Longrightarrow> P"
proof -
  assume len: "length l = 4" and r: "\<And>a b c d. l = [a, b, c, d] \<Longrightarrow> P"
  from len obtain a l1 where 1: "l = a # l1" "length l1 = 3" by (cases l) auto
  from 1(2) obtain b l2 where 2: "l1 = b # l2" "length l2 = 2" by (cases l1) auto
  from 2(2) obtain c l3 where 3: "l2 = c # l3" "length l3 = 1" by (cases l2) auto
  from 3(2) obtain d where 4: "l3 = [d]" by (cases l3) auto
  show P using r 1 2 3 4 by simp
qed

lemmas cell_simps = get_cell_in_range set_cell_in_range list_update_same_conv list_update_same_conv'

lemma h_sum_row_forward:
  assumes "0 \<le> r" "r < int (length t)" "length (t ! nat r) = 4"
  shows "for_each [0, 1, 2] (\<lambda>idx (t, acc).
               bindE (get_cell t r idx) (\<lambda>last'.
                 horizontal_sum_cursor r idx last' (cursor_indices (0, 3, 1) idx) (t, acc))) (t, acc)
         = Inr (t[nat r := merge_cells False (t ! nat r)], acc + merge_gain False (t ! nat r))"
proof -
  from assms(3) obtain a b c d where "t ! nat r = [a, b, c, d]" by (rule length4E)
  with assms(1,2) show ?thesis
    by (auto simp add: cell_simps cursors_forward)
qed

lemma h_sum_row_backward:
  assumes "0 \<le> r" "r < int (length t)" "length (t ! nat r) = 4"
  shows "for_each [3, 2, 1] (\<lambda>idx (t, acc).
               bindE (get_cell t r idx) (\<lambda>last'.
                 horizontal_sum_cursor r idx last' (cursor_indices (3, 0, - 1) idx) (t, acc))) (t, acc)
         = Inr (t[nat r := rev (merge_cells False (rev (t ! nat r)))], acc + merge_gain False (rev (t ! nat r)))"
proof -
  from assms(3) obtain a b c d where "t ! nat r = [a, b, c, d]" by (rule length4E)
  with assms(1,2) show ?thesis
    by (auto simp add: cell_simps cursors_backward)
qed

lemma h_move_row_forward:
  assumes "0 \<le> r" "r < int (length t)" "length (t ! nat r) = 4"
  shows "for_each [0, 1, 2] (\<lambda>idx (t, movement).
               bindE (get_cell t r idx) (\<lambda>pivot.
                 if pivot \<noteq> 0 then Inr (t, movement)
                 else horizontal_move_cursor r idx (cursor_indices (0, 3, 1) idx) (t, movement))) (t, movement)
         = Inr (t[nat r := slide_line (t ! nat r)], movement \<or> slide_line (t ! nat r) \<noteq> t ! nat r)"
proof -
  from assms(3) obtain a b c d where "t ! nat r = [a, b, c, d]" by (rule length4E)
  with assms(1,2) show ?thesis
    by (auto simp add: cell_simps cursors_forward slide_line_def)
qed

lemma h_move_row_backward:
  assumes "0 \<le> r" "r < int (length t)" "length (t ! nat r) = 4"
  shows "for_each [3, 2, 1] (\<lambda>idx (t, movement).
               bindE (get_cell t r idx) (\<lambda>pivot.
                 if pivot \<noteq> 0 then Inr (t, movement)
                 else horizontal_move_cursor r idx (cursor_indices (3, 0, - 1) idx) (t, movement))) (t, movement)
         = Inr (t[nat r := rev (slide_line (rev (t ! nat r)))], movement \<or> rev (slide_line (rev (t ! nat r))) \<noteq> t ! nat r)"
proof -
  from assms(3) obtain a b c d where "t ! nat r = [a, b, c, d]" by (rule length4E)
  with assms(1,2) show ?thesis
    by (auto simp add: cell_simps cursors_backward slide_line_def)
qed


lemma wf_tableE:
  assumes "wf_table t"
  obtains r0 r1 r2 r3 where "t = [r0, r1, r2, r3]"
    "length r0 = 4" "length r1 = 4" "length r2 = 4" "length r3 = 4"
proof -
  from assms have "length t = 4" by (simp add: wf_table_def)
  then obtain r0 r1 r2 r3 where t: "t = [r0, r1, r2, r3]" by (rule length4E)
  with assms that show thesis by (simp add: wf_table_def)
qed


lemma wf_table_cellsE:
  assumes "wf_table t"
  obtains a0 a1 a2 a3 b0 b1 b2 b3 c0 c1 c2 c3 d0 d1 d2 d3 where
    "t = [[a0, a1, a2, a3], [b0, b1, b2, b3], [c0, c1, c2, c3], [d0, d1, d2, d3]]"
proof -
  from assms obtain r0 r1 r2 r3 where t: "t = [r0, r1, r2, r3]"
    and l: "length r0 = 4" "length r1 = 4" "length r2 = 4" "length r3 = 4" by (rule wf_tableE)
  from l(1) obtain a0 a1 a2 a3 where "r0 = [a0, a1, a2, a3]" by (rule length4E)
  moreover from l(2) obtain b0 b1 b2 b3 where "r1 = [b0, b1, b2, b3]" by (rule length4E)
  moreover from l(3) obtain c0 c1 c2 c3 where "r2 = [c0, c1, c2, c3]" by (rule length4E)
  moreover from l(4) obtain d0 d1 d2 d3 where "r3 = [d0, d1, d2, d3]" by (rule length4E)
  ultimately show thesis using t that by simp
qed

lemma v_sum_col_forward:
  assumes "0 \<le> c" "c < 4" "wf_table t"
  shows "for_each [0, 1, 2] (\<lambda>idx (t, acc).
               bindE (get_cell t idx c) (\<lambda>last'.
                 vertical_sum_cursor c idx last' (cursor_indices (0, 3, 1) idx) (t, acc))) (t, x)
         = Inr (set_column t (nat c) (merge_cells False (column t (nat c))),
                x + merge_gain False (column t (nat c)))"
proof -
  from assms(3) obtain a0 a1 a2 a3 b0 b1 b2 b3 c0 c1 c2 c3 d0 d1 d2 d3 where
    t: "t = [[a0, a1, a2, a3], [b0, b1, b2, b3], [c0, c1, c2, c3], [d0, d1, d2, d3]]"
    by (rule wf_table_cellsE)
  from assms(1,2) consider "c = 0" | "c = 1" | "c = 2" | "c = 3" by arith
  then show ?thesis
  proof cases
    case 1 with t show ?thesis
      by (auto simp add: get_cell_in_range set_cell_in_range cursors_forward column_def set_column_def)
  next
    case 2 with t show ?thesis
      by (auto simp add: get_cell_in_range set_cell_in_range cursors_forward column_def set_column_def)
  next
    case 3 with t show ?thesis
      by (auto simp add: get_cell_in_range set_cell_in_range cursors_forward column_def set_column_def)
  next
    case 4 with t show ?thesis
      by (auto simp add: get_cell_in_range set_cell_in_range cursors_forward column_def set_column_def)
  qed
qed

lemma v_sum_col_backward:
  assumes "0 \<le> c" "c < 4" "wf_table t"
  shows "for_each [3, 2, 1] (\<lambda>idx (t, acc).
               bindE (get_cell t idx c) (\<lambda>last'.
                 vertical_sum_cursor c idx last' (cursor_indices (3, 0, - 1) idx) (t, acc))) (t, x)
         = Inr (set_column t (nat c) (rev (merge_cells False (rev (column t (nat c))))),
                x + merge_gain False (rev (column t (nat c))))"
proof -
  from assms(3) obtain a0 a1 a2 a3 b0 b1 b2 b3 c0 c1 c2 c3 d0 d1 d2 d3 where
    t: "t = [[a0, a1, a2, a3], [b0, b1, b2, b3], [c0, c1, c2, c3], [d0, d1, d2, d3]]"
    by (rule wf_table_cellsE)
  from assms(1,2) consider "c = 0" | "c = 1" | "c = 2" | "c = 3" by arith
  then show ?thesis
  proof cases
    case 1 with t show ?thesis
      by (auto simp add: get_cell_in_range set_cell_in_range cursors_backward column_def set_column_def)
  next
    case 2 with t show ?thesis
      by (auto simp add: get_cell_in_range set_cell_in_range cursors_backward column_def set_column_def)
  next
    case 3 with t show ?thesis
      by (auto simp add: get_cell_in_range set_cell_in_range cursors_backward column_def set_column_def)
  next
    case 4 with t show ?thesis
      by (auto simp add: get_cell_in_range set_cell_in_range cursors_backward column_def set_column_def)
  qed
qed

lemma v_move_col_forward:
  assumes "0 \<le> c" "c < 4" "wf_table t"
  shows "for_each [0, 1, 2] (\<lambda>idx (t, movement).
               bindE (get_cell t idx c) (\<lambda>pivot.
                 if pivot \<noteq> 0 then Inr (t, movement)
                 else vertical_move_cursor c idx (cursor_indices (0, 3, 1) idx) (t, movement))) (t, x)
         = Inr (set_column t (nat c) (slide_line (column t (nat c))),
                x \<or> slide_line (column t (nat c)) \<noteq> column t (nat c))"
proof -
  from assms(3) obtain a0 a1 a2 a3 b0 b1 b2 b3 c0 c1 c2 c3 d0 d1 d2 d3 where
    t: "t = [[a0, a1, a2, a3], [b0, b1, b2, b3], [c0, c1, c2, c3], [d0, d1, d2, d3]]"
    by (rule wf_table_cellsE)
  from assms(1,2) consider "c = 0" | "c = 1" | "c = 2" | "c = 3" by arith
  then show ?thesis
  proof cases
    case 1 with t show ?thesis
      by (auto simp add: get_cell_in_range set_cell_in_range cursors_forward column_def set_column_def slide_line_def)
  next
    case 2 with t show ?thesis
      by (auto simp add: get_cell_in_range set_cell_in_range cursors_forward column_def set_column_def slide_line_def)
  next
    case 3 with t show ?thesis
      by (auto simp add: get_cell_in_range set_cell_in_range cursors_forward column_def set_column_def slide_line_def)
  next
    case 4 with t show ?thesis
      by (auto simp add: get_cell_in_range set_cell_in_range cursors_forward column_def set_column_def slide_line_def)
  qed
qed

lemma v_move_col_backward:
  assumes "0 \<le> c" "c < 4" "wf_table t"
  shows "for_each [3, 2, 1] (\<lambda>idx (t, movement).
               bindE (get_cell t idx c) (\<lambda>pivot.
                 if pivot \<noteq> 0 then Inr (t, movement)
                 else vertical_move_cursor c idx (cursor_indices (3, 0, - 1) idx) (t, movement))) (t, x)
         = Inr (set_column t (nat c) (rev (slide_line (rev (column t (nat c))))),
                x \<or> rev (slide_line (rev (column t (nat c)))) \<noteq> column t (nat c))"
proof -
  from assms(3) obtain a0 a1 a2 a3 b0 b1 b2 b3 c0 c1 c2 c3 d0 d1 d2 d3 where
    t: "t = [[a0, a1, a2, a3], [b0, b1, b2, b3], [c0, c1, c2, c3], [d0, d1, d2, d3]]"
    by (rule wf_table_cellsE)
  from assms(1,2) consider "c = 0" | "c = 1" | "c = 2" | "c = 3" by arith
  then show ?thesis
  proof cases
    case 1 with t show ?thesis
      by (auto simp add: get_cell_in_range set_cell_in_range cursors_backward column_def set_column_def slide_line_def)
  next
    case 2 with t show ?thesis
      by (auto simp add: get_cell_in_range set_cell_in_range cursors_backward column_def set_column_def slide_line_def)
  next
    case 3 with t show ?thesis
      by (auto simp add: get_cell_in_range set_cell_in_range cursors_backward column_def set_column_def slide_line_def)
  next
    case 4 with t show ?thesis
      by (auto simp add: get_cell_in_range set_cell_in_range cursors_backward column_def set_column_def slide_line_def)
  qed
qed

lemma for_each4:
  "for_each [i0, i1, i2, i3] body s =
     bindE (body i0 s) (\<lambda>s1. bindE (body i1 s1) (\<lambda>s2. bindE (body i2 s2) (\<lambda>s3. body i3 s3)))"
  by (cases "body i0 s"; simp; rename_tac s1; case_tac "body i1 s1"; simp; rename_tac s2; case_tac "body i2 s2"; simp; case_tac "body i3 b"; simp)

lemma length_merge_cells [simp]: "length (merge_cells p xs) = length xs"
  by (induction xs arbitrary: p) (case_tac p; simp)+

lemma length_slide_line [simp]: "length (slide_line l) = length l"
  by (induction l) (simp_all add: slide_line_def)

lemma wf_table_rows: "wf_table [r0, r1, r2, r3] = (length r0 = 4 \<and> length r1 = 4 \<and> length r2 = 4 \<and> length r3 = 4)"
  by (simp add: wf_table_def)

lemma horizontal_sum_forward:
  assumes "wf_table t"
  shows "horizontal_sum t ''a'' = Inr (map (merge_cells False) t, sum_list (map (merge_gain False) t))"
proof -
  from assms obtain r0 r1 r2 r3 where "t = [r0, r1, r2, r3]"
    "length r0 = 4" "length r1 = 4" "length r2 = 4" "length r3 = 4" by (rule wf_tableE)
  then show ?thesis
    by (simp add: horizontal_sum_def scan_bounds_def py_range_rows pivots_forward for_each4
        h_sum_row_forward del: for_each.simps)
qed

lemma horizontal_sum_backward:
  assumes "wf_table t"
  shows "horizontal_sum t ''d'' = Inr (map (\<lambda>l. rev (merge_cells False (rev l))) t,
           sum_list (map (\<lambda>l. merge_gain False (rev l)) t))"
proof -
  from assms obtain r0 r1 r2 r3 where "t = [r0, r1, r2, r3]"
    "length r0 = 4" "length r1 = 4" "length r2 = 4" "length r3 = 4" by (rule wf_tableE)
  then show ?thesis
    by (simp add: horizontal_sum_def scan_bounds_def py_range_rows pivots_backward for_each4
        h_sum_row_backward del: for_each.simps)
qed

lemma horizontal_move_forward:
  assumes "wf_table t"
  shows "horizontal_move t ''a'' = Inr (map slide_line t, map slide_line t \<noteq> t)"
proof -
  from assms obtain r0 r1 r2 r3 where "t = [r0, r1, r2, r3]"
    "length r0 = 4" "length r1 = 4" "length r2 = 4" "length r3 = 4" by (rule wf_tableE)
  then show ?thesis
    by (auto simp add: horizontal_move_def scan_bounds_def py_range_rows pivots_forward for_each4
        h_move_row_forward simp del: for_each.simps) 
qed

lemma horizontal_move_backward:
  assumes "wf_table t"
  shows "horizontal_move t ''d'' = Inr (map (\<lambda>l. rev (slide_line (rev l))) t,
           map (\<lambda>l. rev (slide_line (rev l))) t \<noteq> t)"
proof -
  from assms obtain r0 r1 r2 r3 where "t = [r0, r1, r2, r3]"
    "length r0 = 4" "length r1 = 4" "length r2 = 4" "length r3 = 4" by (rule wf_tableE)
  then show ?thesis
    by (auto simp add: horizontal_move_def scan_bounds_def py_range_rows pivots_backward for_each4
        h_move_row_backward simp del: for_each.simps)
qed

lemma wf_set_column: "wf_table t \<Longrightarrow> length vs = 4 \<Longrightarrow> wf_table (set_column t c vs)"
  by (erule wf_tableE, erule length4E) (simp add: set_column_def wf_table_def)

lemma length_column: "wf_table t \<Longrightarrow> length (column t c) = 4"
  by (simp add: column_def wf_table_def)

lemma column_set_column_same:
  "wf_table t \<Longrightarrow> length vs = 4 \<Longrightarrow> c < 4 \<Longrightarrow> column (set_column t c vs) c = vs"
  by (erule wf_tableE, erule length4E) (simp add: set_column_def column_def)

lemma column_set_column_other:
  "wf_table t \<Longrightarrow> length vs = 4 \<Longrightarrow> c \<noteq> c' \<Longrightarrow> column (set_column t c vs) c' = column t c'"
  by (erule wf_tableE, erule length4E) (simp add: set_column_def column_def)

lemma set_column_all:
  assumes "wf_table t" "length v0 = 4" "length v1 = 4" "length v2 = 4" "length v3 = 4"
  shows "set_column (set_column (set_column (set_column t 0 v0) (Suc 0) v1) 2 v2) 3 v3
         = columns [v0, v1, v2, v3]"
proof -
  from assms(1) obtain a0 a1 a2 a3 b0 b1 b2 b3 c0 c1 c2 c3 d0 d1 d2 d3 where
    "t = [[a0, a1, a2, a3], [b0, b1, b2, b3], [c0, c1, c2, c3], [d0, d1, d2, d3]]"
    by (rule wf_table_cellsE)
  moreover from assms(2) obtain e0 e1 e2 e3 where "v0 = [e0, e1, e2, e3]" by (rule length4E)
  moreover from assms(3) obtain f0 f1 f2 f3 where "v1 = [f0, f1, f2, f3]" by (rule length4E)
  moreover from assms(4) obtain g0 g1 g2 g3 where "v2 = [g0, g1, g2, g3]" by (rule length4E)
  moreover from assms(5) obtain h0 h1 h2 h3 where "v3 = [h0, h1, h2, h3]" by (rule length4E)
  ultimately show ?thesis
    by (simp add: set_column_def columns_def column_def)
qed

lemmas column_simps = wf_set_column length_column column_set_column_same column_set_column_other
  set_column_all

lemma columns_nth: "columns t = [column t 0, column t (Suc 0), column t 2, column t 3]"
  by (simp add: columns_def)

lemma vertical_sum_forward:
  assumes "wf_table t"
  shows "vertical_sum t ''w'' = Inr (columns (map (merge_cells False) (columns t)),
           sum_list (map (merge_gain False) (columns t)))"
  using assms
  by (simp add: vertical_sum_def scan_bounds_def py_range_rows pivots_forward for_each4
        v_sum_col_forward column_simps columns_nth del: for_each.simps)

lemma vertical_sum_backward:
  assumes "wf_table t"
  shows "vertical_sum t ''s'' = Inr (columns (map (\<lambda>l. rev (merge_cells False (rev l))) (columns t)),
           sum_list (map (\<lambda>l. merge_gain False (rev l)) (columns t)))"
  using assms
  by (simp add: vertical_sum_def scan_bounds_def py_range_rows pivots_backward for_each4
        v_sum_col_backward column_simps columns_nth del: for_each.simps)

lemma vertical_move_forward:
  assumes "wf_table t"
  shows "vertical_move t ''w'' = Inr (columns (map slide_line (columns t)),
           map slide_line (columns t) \<noteq> columns t)"
  using assms
  by (auto simp add: vertical_move_def scan_bounds_def py_range_rows pivots_forward for_each4
        v_move_col_forward column_simps columns_nth simp del: for_each.simps)

lemma vertical_move_backward:
  assumes "wf_table t"
  shows "vertical_move t ''s'' = Inr (columns (map (\<lambda>l. rev (slide_line (rev l))) (columns t)),
           map (\<lambda>l. rev (slide_line (rev l))) (columns t) \<noteq> columns t)"
  using assms
  by (auto simp add: vertical_move_def scan_bounds_def py_range_rows pivots_backward for_each4
        v_move_col_backward column_simps columns_nth simp del: for_each.simps)

section \<open>The phases, line by line\<close>

lemma direction_cases:
  "d \<in> set [''W'', ''A'', ''S'', ''D''] \<Longrightarrow> d = ''W'' \<or> d = ''A'' \<or> d = ''S'' \<or> d = ''D''"
  by auto

lemma wf_columns: "wf_table t \<Longrightarrow> wf_table (columns t)"
  by (simp add: wf_table_def columns_def column_def)

lemma columns_columns: "wf_table t \<Longrightarrow> columns (columns t) = t"
  by (erule wf_table_cellsE) (simp add: columns_def column_def)

lemma wf_map: "wf_table t \<Longrightarrow> (\<And>l. length (f l) = length l) \<Longrightarrow> wf_table (map f t)"
  by (simp add: wf_table_def list_all_iff)

lemma wf_lines: "wf_table t \<Longrightarrow> wf_table (lines d t)"
  by (simp add: lines_def wf_columns)

lemma lines_lines: "wf_table t \<Longrightarrow> lines d (lines d t) = t"
  by (simp add: lines_def columns_columns)

lemma length_toward:
  "(\<And>l. length (f l) = length l) \<Longrightarrow> length (toward d f l) = length l"
  by (simp add: toward_def)

lemma wf_toward_lines:
  "wf_table t \<Longrightarrow> (\<And>l. length (f l) = length l) \<Longrightarrow> wf_table (map (toward d f) (lines d t))"
  by (intro wf_map wf_lines) (simp_all add: length_toward)

lemma toward_eq: "toward d f = (if forward d then f else (\<lambda>l. rev (f (rev l))))"
  by (rule ext) (simp add: toward_def)

lemma line_gain_eq:
  "line_gain d = (if forward d then merge_gain False else (\<lambda>l. merge_gain False (rev l)))"
  by (rule ext) (simp add: line_gain_def)

lemma merge_phase_lines:
  assumes "wf_table t" "d \<in> set [''W'', ''A'', ''S'', ''D'']"
  shows "merge_phase t d =
           Inr (lines d (map (toward d (merge_cells False)) (lines d t)),
                sum_list (map (line_gain d) (lines d t)))"
proof -
  from assms(2) consider "d = ''W''" | "d = ''A''" | "d = ''S''" | "d = ''D''" by auto
  then show ?thesis
  proof cases
    case 1 with assms(1) show ?thesis
      by (simp add: merge_phase_def vertical_sum_forward lines_def horizontal_def forward_def
          toward_eq line_gain_eq)
  next
    case 2 with assms(1) show ?thesis
      by (simp add: merge_phase_def horizontal_sum_forward lines_def horizontal_def forward_def
          toward_eq line_gain_eq)
  next
    case 3 with assms(1) show ?thesis
      by (simp add: merge_phase_def vertical_sum_backward lines_def horizontal_def forward_def
          toward_eq line_gain_eq)
  next
    case 4 with assms(1) show ?thesis
      by (simp add: merge_phase_def horizontal_sum_backward lines_def horizontal_def forward_def
          toward_eq line_gain_eq)
  qed
qed

lemma compaction_phase_lines:
  assumes "wf_table t" "d \<in> set [''W'', ''A'', ''S'', ''D'']"
  shows "compaction_phase t d =
           Inr (lines d (map (toward d slide_line) (lines d t)),
                map (toward d slide_line) (lines d t) \<noteq> lines d t)"
proof -
  from assms(2) consider "d = ''W''" | "d = ''A''" | "d = ''S''" | "d = ''D''" by auto
  then show ?thesis
  proof cases
    case 1 with assms(1) show ?thesis
      by (simp add: compaction_phase_def vertical_move_forward lines_def horizontal_def forward_def
          toward_eq)
  next
    case 2 with assms(1) show ?thesis
      by (simp add: compaction_phase_def horizontal_move_forward lines_def horizontal_def forward_def
          toward_eq)
  next
    case 3 with assms(1) show ?thesis
      by (simp add: compaction_phase_def vertical_move_backward lines_def horizontal_def forward_def
          toward_eq)
  next
    case 4 with assms(1) show ?thesis
      by (simp add: compaction_phase_def horizontal_move_backward lines_def horizontal_def forward_def
          toward_eq)
  qed
qed

lemma push_blocks_phases:
  assumes "d \<in> set [''W'', ''A'', ''S'', ''D'']"
  shows "push_blocks t d =
           bindE (merge_phase t d) (\<lambda>(t1, score).
           bindE (compaction_phase t1 d) (\<lambda>(t2, moved). Inr (t2, score, moved)))"
  using assms by (auto simp add: push_blocks_def merge_phase_def compaction_phase_def)

lemma push_blocks_lines:
  assumes "wf_table t" "d \<in> set [''W'', ''A'', ''S'', ''D'']"
  shows "push_blocks t d =
           Inr (lines d (map (toward d slide_line) (map (toward d (merge_cells False)) (lines d t))),
                sum_list (map (line_gain d) (lines d t)),
                map (toward d slide_line) (map (toward d (merge_cells False)) (lines d t))
                  \<noteq> map (toward d (merge_cells False)) (lines d t))"
proof -
  let ?m = "map (toward d (merge_cells False)) (lines d t)"
  have wf: "wf_table ?m" using assms(1) by (rule wf_toward_lines) simp
  then have "wf_table (lines d ?m)" by (rule wf_lines)
  moreover have "lines d (lines d ?m) = ?m" using wf by (rule lines_lines)
  ultimately show ?thesis
    using assms by (simp add: push_blocks_phases merge_phase_lines compaction_phase_lines)
qed

section \<open>The total of the table\<close>

lemma sum_list_merge_cells: "length l = 4 \<Longrightarrow> sum_list (merge_cells False l) = sum_list l"
  by (erule length4E) auto

lemma sum_list_nonzero: "sum_list (filter (\<lambda>x. x \<noteq> 0) l) = sum_list (l :: int list)"
  by (induction l) simp_all

lemma sum_list_slide_line: "sum_list (slide_line l) = sum_list l"
  by (simp add: slide_line_def sum_list_nonzero sum_list_replicate)

lemma sum_list_toward_slide: "sum_list (toward d slide_line l) = sum_list l"
  by (simp add: toward_def sum_list_slide_line)

lemma sum_list_toward_merge:
  "length l = 4 \<Longrightarrow> sum_list (toward d (merge_cells False) l) = sum_list l"
  by (simp add: toward_def sum_list_merge_cells)

lemma grid_sum_columns: "wf_table t \<Longrightarrow> grid_sum (columns t) = grid_sum t"
  by (erule wf_table_cellsE) (simp add: grid_sum_def columns_def column_def)

lemma grid_sum_lines: "wf_table t \<Longrightarrow> grid_sum (lines d t) = grid_sum t"
  by (simp add: lines_def grid_sum_columns)

lemma grid_sum_map:
  "(\<And>l. l \<in> set t \<Longrightarrow> sum_list (f l) = sum_list l) \<Longrightarrow> grid_sum (map f t) = grid_sum t"
  by (induction t) (simp_all add: grid_sum_def)

lemma wf_row_length: "wf_table t \<Longrightarrow> l \<in> set t \<Longrightarrow> length l = 4"
  by (simp add: wf_table_def list_all_iff)

text \<open>
  C10. For every table of four rows of four blocks and each of the directions
  \<^verbatim>\<open>"W"\<close>, \<^verbatim>\<open>"A"\<close>, \<^verbatim>\<open>"S"\<close>, \<^verbatim>\<open>"D"\<close>, \<^verbatim>\<open>push_blocks\<close> returns
  normally and the sum of the sixteen blocks after the push is the sum before it.
\<close>

theorem push_blocks_preserves_grid_sum:
  assumes "wf_table t" "d \<in> set [''W'', ''A'', ''S'', ''D'']"
  shows "\<exists>t' score moved. push_blocks t d = Inr (t', score, moved) \<and> grid_sum t' = grid_sum t"
proof -
  let ?L = "lines d t"
  let ?M = "map (toward d (merge_cells False)) ?L"
  let ?S = "map (toward d slide_line) ?M"
  have wfL: "wf_table ?L" using assms(1) by (rule wf_lines)
  have wfM: "wf_table ?M" using assms(1) by (rule wf_toward_lines) simp
  have wfS: "wf_table ?S" by (rule wf_map [OF wfM]) (simp add: length_toward)
  have "grid_sum (lines d ?S) = grid_sum ?S" using wfS by (rule grid_sum_lines)
  also have "\<dots> = grid_sum ?M"
    by (rule grid_sum_map) (simp add: sum_list_toward_slide)
  also have "\<dots> = grid_sum ?L"
    by (rule grid_sum_map) (simp add: sum_list_toward_merge wf_row_length [OF wfL])
  also have "\<dots> = grid_sum t" using assms(1) by (rule grid_sum_lines)
  finally show ?thesis using assms by (simp add: push_blocks_lines)
qed

theorem push_blocks_preserves_grid_sum_witness:
  "wf_table [[4, 2, 2, 0], [2, 2, 2, 0], [2, 2, 2, 2], [0, 2, 2, 2]] \<and>
   ''S'' \<in> set [''W'', ''A'', ''S'', ''D''] \<and>
   (\<exists>t' score moved.
      push_blocks [[4, 2, 2, 0], [2, 2, 2, 0], [2, 2, 2, 2], [0, 2, 2, 2]] ''S'' = Inr (t', score, moved) \<and>
      grid_sum t' = grid_sum [[4, 2, 2, 0], [2, 2, 2, 0], [2, 2, 2, 2], [0, 2, 2, 2]])"
  using push_blocks_preserves_grid_sum [of "[[4, 2, 2, 0], [2, 2, 2, 0], [2, 2, 2, 2], [0, 2, 2, 2]]" "''S''"]
  by (simp add: wf_table_def)

section \<open>The example of a push to the left\<close>

text \<open>
  C4. Pushing the table whose first row is \<open>[4, 2, 2, 0]\<close>, all other blocks empty, to
  the left merges the two \<open>2\<close>s: the first row becomes \<open>[4, 4, 0, 0]\<close>, the other rows
  stay empty and the score is \<open>4\<close>. The merged block lands next to the \<open>4\<close> already
  there, so the move phase finds nothing to slide and the flag returned is
  \<open>False\<close>.
\<close>

theorem push_left_example:
  "push_blocks [[4, 2, 2, 0], [0, 0, 0, 0], [0, 0, 0, 0], [0, 0, 0, 0]] ''A''
     = Inr ([[4, 4, 0, 0], [0, 0, 0, 0], [0, 0, 0, 0], [0, 0, 0, 0]], 4, False)"
  by code_simp

text \<open>
  The result of that push is not the triple with the flag \<open>True\<close>.
\<close>

theorem push_left_example_counterexample:
  "push_blocks [[4, 2, 2, 0], [0, 0, 0, 0], [0, 0, 0, 0], [0, 0, 0, 0]] ''A''
     \<noteq> Inr ([[4, 4, 0, 0], [0, 0, 0, 0], [0, 0, 0, 0], [0, 0, 0, 0]], 4, True)"
  by code_simp

section \<open>The flag returned by a push\<close>

lemma lines_inject:
  assumes "wf_table a" "wf_table b" "lines d a = lines d b"
  shows "a = b"
proof -
  have "lines d (lines d a) = lines d (lines d b)" using assms(3) by simp
  then show ?thesis using assms(1,2) by (simp add: lines_lines)
qed

text \<open>
  C1. For every table of four rows of four blocks and each of the four directions, the
  second component returned by \<^verbatim>\<open>push_blocks\<close> is the flag of the move phase alone:
  it is \<open>True\<close> exactly when the move phase has changed the table the merge phase left,
  that is, when a block has slid. The score is the merge phase's. A merge that leaves
  nothing to slide does not set the flag.
\<close>

theorem push_blocks_flag_is_move_flag:
  assumes "wf_table t" "d \<in> set [''W'', ''A'', ''S'', ''D'']"
  shows "\<exists>t1 score t2 moved.
           merge_phase t d = Inr (t1, score) \<and>
           compaction_phase t1 d = Inr (t2, moved) \<and>
           push_blocks t d = Inr (t2, score, moved) \<and>
           (moved \<longleftrightarrow> t2 \<noteq> t1)"
proof -
  let ?M = "map (toward d (merge_cells False)) (lines d t)"
  let ?S = "map (toward d slide_line) ?M"
  have wfM: "wf_table ?M" using assms(1) by (rule wf_toward_lines) simp
  have wfS: "wf_table ?S" by (rule wf_map [OF wfM]) (simp add: length_toward)
  have wf1: "wf_table (lines d ?M)" using wfM by (rule wf_lines)
  have again: "lines d (lines d ?M) = ?M" using wfM by (rule lines_lines)
  have flag: "(?S \<noteq> ?M) = (lines d ?S \<noteq> lines d ?M)"
  proof
    assume "?S \<noteq> ?M"
    show "lines d ?S \<noteq> lines d ?M"
    proof
      assume "lines d ?S = lines d ?M"
      with wfS wfM have "?S = ?M" by (rule lines_inject)
      with \<open>?S \<noteq> ?M\<close> show False by (rule notE)
    qed
  next
    assume "lines d ?S \<noteq> lines d ?M"
    show "?S \<noteq> ?M"
    proof
      assume "?S = ?M"
      then have "lines d ?S = lines d ?M" by (rule arg_cong)
      with \<open>lines d ?S \<noteq> lines d ?M\<close> show False by (rule notE)
    qed
  qed
  have m: "merge_phase t d = Inr (lines d ?M, sum_list (map (line_gain d) (lines d t)))"
    using assms by (rule merge_phase_lines)
  have c: "compaction_phase (lines d ?M) d = Inr (lines d ?S, ?S \<noteq> ?M)"
    using compaction_phase_lines [OF wf1 assms(2)] by (simp only: again)
  have p: "push_blocks t d = Inr (lines d ?S, sum_list (map (line_gain d) (lines d t)), ?S \<noteq> ?M)"
    using assms by (rule push_blocks_lines)
  show ?thesis
    by (intro exI conjI) (rule m, rule c, rule p, rule flag)
qed

theorem push_blocks_flag_is_move_flag_witness:
  "wf_table [[0, 2, 0, 2], [0, 0, 0, 0], [0, 0, 0, 0], [0, 0, 0, 0]] \<and>
   ''D'' \<in> set [''W'', ''A'', ''S'', ''D''] \<and>
   (\<exists>t1 score t2 moved.
      merge_phase [[0, 2, 0, 2], [0, 0, 0, 0], [0, 0, 0, 0], [0, 0, 0, 0]] ''D'' = Inr (t1, score) \<and>
      compaction_phase t1 ''D'' = Inr (t2, moved) \<and>
      push_blocks [[0, 2, 0, 2], [0, 0, 0, 0], [0, 0, 0, 0], [0, 0, 0, 0]] ''D'' = Inr (t2, score, moved) \<and>
      (moved \<longleftrightarrow> t2 \<noteq> t1))"
  using push_blocks_flag_is_move_flag
    [of "[[0, 2, 0, 2], [0, 0, 0, 0], [0, 0, 0, 0], [0, 0, 0, 0]]" "''D''"]
  by (simp add: wf_table_def)

text \<open>
  On the row \<open>[2, 2, 0, 0]\<close> pushed to the left the merge phase changes the table and
  scores \<open>4\<close>, and the flag returned is \<open>False\<close>.
\<close>

theorem merge_without_flag_counterexample:
  "merge_phase [[2, 2, 0, 0], [0, 0, 0, 0], [0, 0, 0, 0], [0, 0, 0, 0]] ''A''
     = Inr ([[4, 0, 0, 0], [0, 0, 0, 0], [0, 0, 0, 0], [0, 0, 0, 0]], 4) \<and>
   [[4, 0, 0, 0], [0, 0, 0, 0], [0, 0, 0, 0], [0, 0, 0, 0]]
     \<noteq> [[2, 2, 0, 0], [0, 0, 0, 0], [0, 0, 0, 0], [0, 0, 0, 0 :: int]] \<and>
   push_blocks [[2, 2, 0, 0], [0, 0, 0, 0], [0, 0, 0, 0], [0, 0, 0, 0]] ''A''
     = Inr ([[4, 0, 0, 0], [0, 0, 0, 0], [0, 0, 0, 0], [0, 0, 0, 0]], 4, False)"
  by code_simp

section \<open>The move phase packs every line\<close>

lemma nonzeros_slide_line: "nonzeros (slide_line l) = nonzeros l"
  by (simp add: nonzeros_def slide_line_def)

lemma count_zeros: "length (filter (\<lambda>x. x = 0) l) = length l - length (nonzeros (l :: int list))"
  by (induction l) (auto simp add: nonzeros_def Suc_diff_le)

lemma packed_front_slide_line: "packed_front l (slide_line l)"
  by (simp add: packed_front_def slide_line_def count_zeros) (simp add: nonzeros_def)

lemma nonzeros_rev: "nonzeros (rev l) = rev (nonzeros l)"
  by (simp add: nonzeros_def rev_filter)

lemma packed_back_slide_line: "packed_back l (rev (slide_line (rev l)))"
  by (simp add: packed_back_def slide_line_def count_zeros nonzeros_rev) (simp add: nonzeros_def rev_filter)

lemma toward_slide_line_packed:
  "nonzeros (toward d slide_line l) = nonzeros l \<and>
   (if forward d then packed_front l (toward d slide_line l)
    else packed_back l (toward d slide_line l))"
  by (simp add: toward_def nonzeros_slide_line nonzeros_rev packed_front_slide_line
      packed_back_slide_line)

text \<open>
  C6. For every table of four rows of four blocks and each direction, the move phase
  returns normally, and in every line (row for left and right, column for up and down) the
  non-empty blocks after the phase are the non-empty blocks before it: the same multiset,
  in the same order. They are packed against the edge the push goes to (index \<open>0\<close> for
  left and up, index \<open>3\<close> for right and down) and the rest of the line is \<open>0\<close>.
\<close>

theorem compaction_packs_lines:
  assumes "wf_table t" "d \<in> set [''W'', ''A'', ''S'', ''D'']"
  shows "\<exists>t' moved. compaction_phase t d = Inr (t', moved) \<and> wf_table t' \<and>
           (\<forall>i<4. mset (nonzeros (lines d t' ! i)) = mset (nonzeros (lines d t ! i)) \<and>
                   nonzeros (lines d t' ! i) = nonzeros (lines d t ! i) \<and>
                   (if forward d then packed_front (lines d t ! i) (lines d t' ! i)
                    else packed_back (lines d t ! i) (lines d t' ! i)))"
proof -
  let ?S = "map (toward d slide_line) (lines d t)"
  have wfS: "wf_table ?S" using assms(1) by (rule wf_toward_lines) simp
  have wf': "wf_table (lines d ?S)" using wfS by (rule wf_lines)
  have again: "lines d (lines d ?S) = ?S" using wfS by (rule lines_lines)
  have len: "length (lines d t) = 4" using wf_lines [OF assms(1)] by (simp add: wf_table_def)
  show ?thesis
    using assms wf' again len
    by (simp add: compaction_phase_lines toward_slide_line_packed)
qed

theorem compaction_packs_lines_witness:
  "wf_table [[4, 0, 0, 0], [0, 4, 4, 0], [4, 0, 0, 0], [0, 4, 4, 4]] \<and>
   ''S'' \<in> set [''W'', ''A'', ''S'', ''D''] \<and>
   (\<exists>t' moved.
      compaction_phase [[4, 0, 0, 0], [0, 4, 4, 0], [4, 0, 0, 0], [0, 4, 4, 4]] ''S'' = Inr (t', moved) \<and>
      wf_table t' \<and>
      (\<forall>i<4. mset (nonzeros (lines ''S'' t' ! i))
                = mset (nonzeros (lines ''S'' [[4, 0, 0, 0], [0, 4, 4, 0], [4, 0, 0, 0], [0, 4, 4, 4]] ! i)) \<and>
              nonzeros (lines ''S'' t' ! i)
                = nonzeros (lines ''S'' [[4, 0, 0, 0], [0, 4, 4, 0], [4, 0, 0, 0], [0, 4, 4, 4]] ! i) \<and>
              (if forward ''S''
               then packed_front (lines ''S'' [[4, 0, 0, 0], [0, 4, 4, 0], [4, 0, 0, 0], [0, 4, 4, 4]] ! i)
                      (lines ''S'' t' ! i)
               else packed_back (lines ''S'' [[4, 0, 0, 0], [0, 4, 4, 0], [4, 0, 0, 0], [0, 4, 4, 4]] ! i)
                      (lines ''S'' t' ! i))))"
  using compaction_packs_lines
    [of "[[4, 0, 0, 0], [0, 4, 4, 0], [4, 0, 0, 0], [0, 4, 4, 4]]" "''S''"]
  by (simp add: wf_table_def)

section \<open>The score of the merge phase\<close>

lemma line_gain_changed_total:
  "length l = 4 \<Longrightarrow> line_gain d l = changed_total l (toward d (merge_cells False) l)"
  by (erule length4E) (auto simp add: line_gain_def toward_def changed_total_def)

lemma line_absorbed_or_doubled:
  "length l = 4 \<Longrightarrow> list_all2 absorbed_or_doubled l (toward d (merge_cells False) l)"
  by (erule length4E) (auto simp add: toward_def absorbed_or_doubled_def)

lemma created_columns:
  assumes "wf_table a" "wf_table b"
  shows "created (columns a) (columns b) = created a b"
proof -
  from assms(1) obtain a0 a1 a2 a3 b0 b1 b2 b3 c0 c1 c2 c3 d0 d1 d2 d3 where
    "a = [[a0, a1, a2, a3], [b0, b1, b2, b3], [c0, c1, c2, c3], [d0, d1, d2, d3]]"
    by (rule wf_table_cellsE)
  moreover from assms(2) obtain e0 e1 e2 e3 f0 f1 f2 f3 g0 g1 g2 g3 h0 h1 h2 h3 where
    "b = [[e0, e1, e2, e3], [f0, f1, f2, f3], [g0, g1, g2, g3], [h0, h1, h2, h3]]"
    by (rule wf_table_cellsE)
  ultimately show ?thesis
    by (simp add: created_def changed_total_def columns_def column_def)
qed

lemma created_lines:
  "wf_table a \<Longrightarrow> wf_table b \<Longrightarrow> created (lines d a) (lines d b) = created a b"
  by (simp add: lines_def created_columns)

lemma created_map: "created L (map f L) = sum_list (map (\<lambda>l. changed_total l (f l)) L)"
  by (induction L) (simp_all add: created_def)

lemma all2_columns:
  assumes "wf_table a" "wf_table b"
  shows "list_all2 (list_all2 R) (columns a) (columns b) = list_all2 (list_all2 R) a b"
proof -
  from assms(1) obtain a0 a1 a2 a3 b0 b1 b2 b3 c0 c1 c2 c3 d0 d1 d2 d3 where
    "a = [[a0, a1, a2, a3], [b0, b1, b2, b3], [c0, c1, c2, c3], [d0, d1, d2, d3]]"
    by (rule wf_table_cellsE)
  moreover from assms(2) obtain e0 e1 e2 e3 f0 f1 f2 f3 g0 g1 g2 g3 h0 h1 h2 h3 where
    "b = [[e0, e1, e2, e3], [f0, f1, f2, f3], [g0, g1, g2, g3], [h0, h1, h2, h3]]"
    by (rule wf_table_cellsE)
  ultimately show ?thesis
    by (simp add: columns_def column_def) blast
qed

lemma all2_lines:
  "wf_table a \<Longrightarrow> wf_table b \<Longrightarrow>
   list_all2 (list_all2 R) (lines d a) (lines d b) = list_all2 (list_all2 R) a b"
  by (simp add: lines_def all2_columns)

lemma all2_map: "list_all2 P L (map f L) = (\<forall>l\<in>set L. P l (f l))"
  by (induction L) simp_all

text \<open>
  C2. For every table of four rows of four blocks and each direction, the merge phase
  returns normally and leaves the sum of all blocks as it was: a merge of two blocks of
  value \<open>v\<close> puts \<open>2 * v\<close> in one position and \<open>0\<close> in the other. Every block is
  unchanged, absorbed (now \<open>0\<close>) or doubled, and the score returned is the total of the
  new values of the changed blocks, that is \<open>2 * v\<close> for each merge.
\<close>

theorem merge_phase_score:
  assumes "wf_table t" "d \<in> set [''W'', ''A'', ''S'', ''D'']"
  shows "\<exists>t' score. merge_phase t d = Inr (t', score) \<and>
           grid_sum t' = grid_sum t \<and>
           score = created t t' \<and>
           list_all2 (list_all2 absorbed_or_doubled) t t'"
proof -
  let ?L = "lines d t"
  let ?M = "map (toward d (merge_cells False)) ?L"
  have wfL: "wf_table ?L" using assms(1) by (rule wf_lines)
  have wfM: "wf_table ?M" using assms(1) by (rule wf_toward_lines) simp
  have wf': "wf_table (lines d ?M)" using wfM by (rule wf_lines)
  have len: "\<And>l. l \<in> set ?L \<Longrightarrow> length l = 4" using wfL by (rule wf_row_length)
  have m: "merge_phase t d = Inr (lines d ?M, sum_list (map (line_gain d) ?L))"
    using assms by (rule merge_phase_lines)
  have "grid_sum (lines d ?M) = grid_sum ?M" using wfM by (rule grid_sum_lines)
  also have "\<dots> = grid_sum ?L"
    by (rule grid_sum_map) (simp add: sum_list_toward_merge len)
  also have "\<dots> = grid_sum t" using assms(1) by (rule grid_sum_lines)
  finally have s: "grid_sum (lines d ?M) = grid_sum t" .
  have "created t (lines d ?M) = created (lines d t) (lines d (lines d ?M))"
    using assms(1) wf' by (simp add: created_lines)
  also have "\<dots> = created ?L ?M" using wfM by (simp add: lines_lines)
  also have "\<dots> = sum_list (map (\<lambda>l. changed_total l (toward d (merge_cells False) l)) ?L)"
    by (rule created_map)
  also have "\<dots> = sum_list (map (line_gain d) ?L)"
    by (rule arg_cong [where f = sum_list]) (simp add: line_gain_changed_total len)
  finally have c: "sum_list (map (line_gain d) ?L) = created t (lines d ?M)" by simp
  have "list_all2 (list_all2 absorbed_or_doubled) t (lines d ?M)
          = list_all2 (list_all2 absorbed_or_doubled) (lines d t) (lines d (lines d ?M))"
    using assms(1) wf' by (simp add: all2_lines)
  also have "\<dots> = list_all2 (list_all2 absorbed_or_doubled) ?L ?M"
    using wfM by (simp add: lines_lines)
  also have "\<dots>" by (simp only: all2_map) (simp add: line_absorbed_or_doubled len)
  finally have a: "list_all2 (list_all2 absorbed_or_doubled) t (lines d ?M)" by simp
  show ?thesis
    by (intro exI conjI) (rule m, rule s, rule c, rule a)
qed

theorem merge_phase_score_witness:
  "wf_table [[4, 2, 2, 0], [2, 2, 2, 0], [2, 2, 2, 2], [0, 2, 2, 2]] \<and>
   ''W'' \<in> set [''W'', ''A'', ''S'', ''D''] \<and>
   (\<exists>t' score.
      merge_phase [[4, 2, 2, 0], [2, 2, 2, 0], [2, 2, 2, 2], [0, 2, 2, 2]] ''W'' = Inr (t', score) \<and>
      grid_sum t' = grid_sum [[4, 2, 2, 0], [2, 2, 2, 0], [2, 2, 2, 2], [0, 2, 2, 2]] \<and>
      score = created [[4, 2, 2, 0], [2, 2, 2, 0], [2, 2, 2, 2], [0, 2, 2, 2]] t' \<and>
      list_all2 (list_all2 absorbed_or_doubled)
        [[4, 2, 2, 0], [2, 2, 2, 0], [2, 2, 2, 2], [0, 2, 2, 2]] t')"
  using merge_phase_score [of "[[4, 2, 2, 0], [2, 2, 2, 0], [2, 2, 2, 2], [0, 2, 2, 2]]" "''W''"]
  by (simp add: wf_table_def)

text \<open>
  Merging the two \<open>2\<close>s of the row \<open>[2, 2, 0, 0]\<close> to the left gives the row
  \<open>[4, 0, 0, 0]\<close>: the sum of the table has not grown by \<open>2\<close>, and the score is
  \<open>4\<close>, not \<open>2\<close>.
\<close>

theorem merge_net_gain_counterexample:
  "merge_phase [[2, 2, 0, 0], [0, 0, 0, 0], [0, 0, 0, 0], [0, 0, 0, 0]] ''A''
     = Inr ([[4, 0, 0, 0], [0, 0, 0, 0], [0, 0, 0, 0], [0, 0, 0, 0]], 4) \<and>
   grid_sum [[4, 0, 0, 0], [0, 0, 0, 0], [0, 0, 0, 0], [0, 0, 0, 0]]
     \<noteq> grid_sum [[2, 2, 0, 0], [0, 0, 0, 0], [0, 0, 0, 0], [0, 0, 0, 0]] + 2 \<and>
   merge_phase [[2, 2, 0, 0], [0, 0, 0, 0], [0, 0, 0, 0], [0, 0, 0, 0]] ''A''
     \<noteq> Inr ([[4, 0, 0, 0], [0, 0, 0, 0], [0, 0, 0, 0], [0, 0, 0, 0]], 2)"
  by code_simp

section \<open>Pushing twice\<close>

lemma packed_line_stable:
  assumes "length x = 4" "\<not> adjacent_equal (toward d slide_line x)"
  shows "toward d (merge_cells False) (toward d slide_line x) = toward d slide_line x"
    and "line_gain d (toward d slide_line x) = 0"
    and "toward d slide_line (toward d slide_line x) = toward d slide_line x"
  using assms(2)
  by (rule_tac [!] length4E [OF assms(1)])
     (auto simp add: toward_def line_gain_def slide_line_def split: if_splits)

text \<open>
  C3. For every table of four rows of four blocks and each direction: when the table a
  push has produced has no line (row for left and right, column for up and down) with two
  equal non-empty neighbours, pushing it again in the same direction leaves it as it is,
  scores \<open>0\<close> and returns the flag \<open>False\<close>.
\<close>

theorem second_push_stable:
  assumes "wf_table t" "d \<in> set [''W'', ''A'', ''S'', ''D'']"
    and "push_blocks t d = Inr (t1, score1, moved1)"
    and "\<not> list_ex adjacent_equal (lines d t1)"
  shows "push_blocks t1 d = Inr (t1, 0, False)"
proof -
  let ?M = "map (toward d (merge_cells False)) (lines d t)"
  let ?S = "map (toward d slide_line) ?M"
  have wfM: "wf_table ?M" using assms(1) by (rule wf_toward_lines) simp
  have wfS: "wf_table ?S" by (rule wf_map [OF wfM]) (simp add: length_toward)
  have t1: "t1 = lines d ?S" using assms(1,2,3) by (simp add: push_blocks_lines)
  have wf1: "wf_table t1" unfolding t1 using wfS by (rule wf_lines)
  have L: "lines d t1 = ?S" unfolding t1 using wfS by (rule lines_lines)
  have stable: "toward d (merge_cells False) l = l \<and> line_gain d l = 0 \<and> toward d slide_line l = l"
    if "l \<in> set ?S" for l
  proof -
    from that obtain x where x: "x \<in> set ?M" and l: "l = toward d slide_line x" by auto
    from wfM x have len: "length x = 4" by (rule wf_row_length)
    from assms(4) have "\<forall>l\<in>set (lines d t1). \<not> adjacent_equal l"
      by (simp only: list_ex_iff) blast
    then have "\<forall>l\<in>set ?S. \<not> adjacent_equal l" by (simp only: L)
    with that have na: "\<not> adjacent_equal l" by blast
    show ?thesis using len na unfolding l by (simp add: packed_line_stable)
  qed
  have m: "map (toward d (merge_cells False)) ?S = ?S"
    by (rule map_idI) (simp only: stable)
  have g: "sum_list (map (line_gain d) ?S) = 0"
  proof -
    have "map (line_gain d) ?S = map (\<lambda>l. 0) ?S"
      by (rule map_cong [OF refl]) (simp only: stable)
    then show ?thesis by (simp only: sum_list_0)
  qed
  have s: "map (toward d slide_line) ?S = ?S"
    by (rule map_idI) (simp only: stable)
  have "push_blocks t1 d = Inr (lines d ?S, 0, False)"
    using push_blocks_lines [OF wf1 assms(2)] by (simp only: L m g s) simp
  then show ?thesis by (simp only: t1 [symmetric])
qed

theorem second_push_stable_witness:
  "wf_table [[0, 2, 0, 4], [2, 2, 0, 0], [0, 0, 0, 0], [0, 0, 0, 0]] \<and>
   ''A'' \<in> set [''W'', ''A'', ''S'', ''D''] \<and>
   push_blocks [[0, 2, 0, 4], [2, 2, 0, 0], [0, 0, 0, 0], [0, 0, 0, 0]] ''A''
     = Inr ([[2, 4, 0, 0], [4, 0, 0, 0], [0, 0, 0, 0], [0, 0, 0, 0]], 4, True) \<and>
   \<not> list_ex adjacent_equal
        (lines ''A'' [[2, 4, 0, 0], [4, 0, 0, 0], [0, 0, 0, 0], [0, 0, 0, 0]]) \<and>
   push_blocks [[2, 4, 0, 0], [4, 0, 0, 0], [0, 0, 0, 0], [0, 0, 0, 0]] ''A''
     = Inr ([[2, 4, 0, 0], [4, 0, 0, 0], [0, 0, 0, 0], [0, 0, 0, 0]], 0, False)"
proof -
  have w: "wf_table [[0, 2, 0, 4], [2, 2, 0, 0], [0, 0, 0, 0], [0, 0, 0, 0]]"
    by (simp add: wf_table_def)
  have d: "''A'' \<in> set [''W'', ''A'', ''S'', ''D'']" by simp
  have p: "push_blocks [[0, 2, 0, 4], [2, 2, 0, 0], [0, 0, 0, 0], [0, 0, 0, 0]] ''A''
     = Inr ([[2, 4, 0, 0], [4, 0, 0, 0], [0, 0, 0, 0], [0, 0, 0, 0]], 4, True)"
    by code_simp
  have n: "\<not> list_ex adjacent_equal
        (lines ''A'' [[2, 4, 0, 0], [4, 0, 0, 0], [0, 0, 0, 0], [0, 0, 0, 0]])"
    by (simp add: lines_def horizontal_def)
  from w d p n second_push_stable [OF w d p n] show ?thesis by (intro conjI)
qed

text \<open>
  A block merges at most once in a push, so a second push can merge again: the row
  \<open>[2, 2, 4, 2]\<close> pushed to the left becomes \<open>[4, 4, 2, 0]\<close>, and the second push
  makes it \<open>[8, 2, 0, 0]\<close>, scores \<open>8\<close> and returns the flag \<open>True\<close>.
\<close>

theorem second_push_merges_counterexample:
  "push_blocks [[2, 2, 4, 2], [0, 0, 0, 0], [0, 0, 0, 0], [0, 0, 0, 0]] ''A''
     = Inr ([[4, 4, 2, 0], [0, 0, 0, 0], [0, 0, 0, 0], [0, 0, 0, 0]], 4, True) \<and>
   push_blocks [[4, 4, 2, 0], [0, 0, 0, 0], [0, 0, 0, 0], [0, 0, 0, 0]] ''A''
     = Inr ([[8, 2, 0, 0], [0, 0, 0, 0], [0, 0, 0, 0], [0, 0, 0, 0]], 8, True)"
  by code_simp

section \<open>The axis and the order of the scans\<close>

text \<open>
  C5. The pivot indices are visited in ascending order \<open>0, 1, 2\<close> for \<^verbatim>\<open>"a"\<close> (left)
  and \<^verbatim>\<open>"w"\<close> (up), and in descending order \<open>3, 2, 1\<close> for \<^verbatim>\<open>"d"\<close> (right) and
  \<^verbatim>\<open>"s"\<close> (down): the scan starts at the edge the push goes to. On every table of four
  rows of four blocks the merge and the move scans work row by row for left and right
  (each row of the result is computed from the same row of the table) and column by column
  for up and down.
\<close>

theorem scan_axis_and_order:
  assumes "wf_table t"
  shows "pivot_indices (scan_bounds ''a'' ''a'') = [0, 1, 2] \<and>
         pivot_indices (scan_bounds ''d'' ''a'') = [3, 2, 1] \<and>
         pivot_indices (scan_bounds ''w'' ''w'') = [0, 1, 2] \<and>
         pivot_indices (scan_bounds ''s'' ''w'') = [3, 2, 1] \<and>
         (\<exists>score. horizontal_sum t ''a'' = Inr (map (merge_cells False) t, score)) \<and>
         (\<exists>score. horizontal_sum t ''d'' = Inr (map (\<lambda>l. rev (merge_cells False (rev l))) t, score)) \<and>
         (\<exists>score. vertical_sum t ''w'' = Inr (columns (map (merge_cells False) (columns t)), score)) \<and>
         (\<exists>score. vertical_sum t ''s''
            = Inr (columns (map (\<lambda>l. rev (merge_cells False (rev l))) (columns t)), score)) \<and>
         (\<exists>moved. horizontal_move t ''a'' = Inr (map slide_line t, moved)) \<and>
         (\<exists>moved. horizontal_move t ''d'' = Inr (map (\<lambda>l. rev (slide_line (rev l))) t, moved)) \<and>
         (\<exists>moved. vertical_move t ''w'' = Inr (columns (map slide_line (columns t)), moved)) \<and>
         (\<exists>moved. vertical_move t ''s''
            = Inr (columns (map (\<lambda>l. rev (slide_line (rev l))) (columns t)), moved))"
  using assms
  by (simp add: scan_bounds_def pivots_forward pivots_backward
      horizontal_sum_forward horizontal_sum_backward vertical_sum_forward vertical_sum_backward
      horizontal_move_forward horizontal_move_backward vertical_move_forward
      vertical_move_backward)

theorem scan_axis_and_order_witness:
  "wf_table [[4, 2, 2, 0], [2, 2, 2, 0], [2, 2, 2, 2], [0, 2, 2, 2]] \<and>
   pivot_indices (scan_bounds ''a'' ''a'') = [0, 1, 2] \<and>
   pivot_indices (scan_bounds ''d'' ''a'') = [3, 2, 1] \<and>
   (\<exists>score. horizontal_sum [[4, 2, 2, 0], [2, 2, 2, 0], [2, 2, 2, 2], [0, 2, 2, 2]] ''a''
      = Inr (map (merge_cells False) [[4, 2, 2, 0], [2, 2, 2, 0], [2, 2, 2, 2], [0, 2, 2, 2]],
             score))"
  using scan_axis_and_order [of "[[4, 2, 2, 0], [2, 2, 2, 0], [2, 2, 2, 2], [0, 2, 2, 2]]"]
  by (simp add: wf_table_def)

text \<open>
  For right the pivots are \<open>3, 2, 1\<close>, which is not ascending; for left they are
  \<open>0, 1, 2\<close>, which is not descending.
\<close>

theorem scan_order_counterexample:
  "pivot_indices (scan_bounds ''d'' ''a'') = [3, 2, 1] \<and>
   \<not> sorted (pivot_indices (scan_bounds ''d'' ''a'')) \<and>
   pivot_indices (scan_bounds ''a'' ''a'') = [0, 1, 2] \<and>
   \<not> sorted (rev (pivot_indices (scan_bounds ''a'' ''a'')))"
  by (simp add: scan_bounds_def pivots_forward pivots_backward)

section \<open>Empty positions and the movability check\<close>

lemma for_each_collect:
  assumes "\<And>i acc. i \<in> set xs \<Longrightarrow> body i acc = Inr (acc @ g i)"
  shows "for_each xs body acc = Inr (acc @ concat (map g xs))"
  using assms by (induction xs arbitrary: acc) simp_all

lemma any_of_pure:
  assumes "\<And>i. i \<in> set xs \<Longrightarrow> f i = Inr (p i)"
  shows "any_of xs f = Inr (\<exists>i\<in>set xs. p i)"
  using assms by (induction xs) simp_all

lemma wf_get_cell:
  assumes "wf_table t" "r \<in> set [0, 1, 2, 3]" "c \<in> set [0, 1, 2, 3]"
  shows "get_cell t r c = Inr (t ! nat r ! nat c)"
proof -
  from assms(1) obtain r0 r1 r2 r3 where "t = [r0, r1, r2, r3]"
    "length r0 = 4" "length r1 = 4" "length r2 = 4" "length r3 = 4" by (rule wf_tableE)
  with assms(2,3) show ?thesis by (auto simp add: get_cell_in_range)
qed

lemma wf_set_cell:
  assumes "wf_table t" "r \<in> set [0, 1, 2, 3]" "c \<in> set [0, 1, 2, 3]"
  shows "set_cell t r c v = Inr (t[nat r := (t ! nat r)[nat c := v]])"
proof -
  from assms(1) obtain r0 r1 r2 r3 where "t = [r0, r1, r2, r3]"
    "length r0 = 4" "length r1 = 4" "length r2 = 4" "length r3 = 4" by (rule wf_tableE)
  with assms(2,3) show ?thesis by (auto simp add: set_cell_in_range)
qed

lemma get_empty_indexes_closed:
  assumes "wf_table t"
  shows "get_empty_indexes t =
           Inr (concat (map (\<lambda>r. concat (map (\<lambda>c. if t ! nat r ! nat c = 0 then [(r, c)] else [])
                  [0, 1, 2, 3])) [0, 1, 2, 3]))"
proof -
  have inner: "for_each [0, 1, 2, 3] (\<lambda>col_idx indexes.
         bindE (get_cell t r col_idx) (\<lambda>v.
           Inr (if v = 0 then indexes @ [(r, col_idx)] else indexes))) acc
      = Inr (acc @ concat (map (\<lambda>c. if t ! nat r ! nat c = 0 then [(r, c)] else []) [0, 1, 2, 3]))"
    if "r \<in> set [0, 1, 2, 3]" for r acc
    by (rule for_each_collect) (simp add: wf_get_cell [OF assms that])
  have "for_each [0, 1, 2, 3] (\<lambda>row_idx.
       for_each [0, 1, 2, 3] (\<lambda>col_idx indexes.
         bindE (get_cell t row_idx col_idx) (\<lambda>v.
           Inr (if v = 0 then indexes @ [(row_idx, col_idx)] else indexes)))) []
     = Inr ([] @ concat (map (\<lambda>r. concat (map (\<lambda>c. if t ! nat r ! nat c = 0 then [(r, c)] else [])
                  [0, 1, 2, 3])) [0, 1, 2, 3]))"
    by (rule for_each_collect) (rule inner)
  then show ?thesis by (simp add: get_empty_indexes_def py_range_rows)
qed

lemma ex_lt4: "(\<exists>i<4. P i) = (P 0 \<or> P 1 \<or> P 2 \<or> P (3::nat))"
proof -
  have "(i < 4) = (i = 0 \<or> i = 1 \<or> i = 2 \<or> i = 3)" for i :: nat by auto
  then show ?thesis by auto
qed

lemma ex_lt3: "(\<exists>i<3. P i) = (P 0 \<or> P 1 \<or> P (2::nat))"
proof -
  have "(i < 3) = (i = 0 \<or> i = 1 \<or> i = 2)" for i :: nat by auto
  then show ?thesis by auto
qed

lemma all_lt4: "(\<forall>i<4. P i) = (P 0 \<and> P 1 \<and> P 2 \<and> P (3::nat))"
  using ex_lt4 [of "\<lambda>i. \<not> P i"] by blast

lemma empty_indexes_nonempty:
  assumes "wf_table t"
  shows "\<exists>indexes. get_empty_indexes t = Inr indexes \<and>
           (indexes \<noteq> [] \<longleftrightarrow> (\<exists>r<4. \<exists>c<4. t ! r ! c = 0)) \<and>
           (\<forall>(r, c)\<in>set indexes. r \<in> set [0, 1, 2, 3] \<and> c \<in> set [0, 1, 2, 3] \<and>
                t ! nat r ! nat c = 0)"
  by (auto simp add: get_empty_indexes_closed [OF assms] ex_lt4)

lemma any_of_four:
  assumes "\<And>i. i \<in> set [0, 1, 2, 3] \<Longrightarrow> f i = Inr (p (nat i))"
  shows "any_of [0, 1, 2, 3] f = Inr (\<exists>r<4. p r)"
  by (simp only: any_of_pure [of "[0, 1, 2, 3]" f "\<lambda>i. p (nat i)", OF assms] ex_lt4) simp

lemma any_of_three:
  assumes "\<And>i. i \<in> set [0, 1, 2] \<Longrightarrow> f i = Inr (p (nat i))"
  shows "any_of [0, 1, 2] f = Inr (\<exists>r<3. p r)"
  by (simp only: any_of_pure [of "[0, 1, 2]" f "\<lambda>i. p (nat i)", OF assms] ex_lt3) simp

lemma can_move_horizontally_closed:
  assumes "wf_table t"
  shows "can_move_horizontally t = Inr (\<exists>r<4. \<exists>c<3. t ! r ! c = t ! r ! (c + 1))"
  unfolding can_move_horizontally_def py_range_rows
  by (rule any_of_four, rule any_of_three)
     (auto simp add: wf_get_cell [OF assms] eval_nat_numeral)

lemma can_move_vertically_closed:
  assumes "wf_table t"
  shows "can_move_vertically t = Inr (\<exists>c<4. \<exists>r<3. t ! r ! c = t ! (r + 1) ! c)"
  unfolding can_move_vertically_def py_range_rows
  by (rule any_of_four, rule any_of_three)
     (auto simp add: wf_get_cell [OF assms] eval_nat_numeral)

text \<open>
  C9. For every table of four rows of four blocks, \<^verbatim>\<open>can_move\<close> returns normally, and
  returns \<open>True\<close> exactly when some block is \<open>0\<close>, or two blocks next to each other
  in a row are equal, or two blocks next to each other in a column are equal. On the table
  \<open>[[2,4,2,4],[4,2,4,2],[2,4,2,4],[4,2,4,2]]\<close> it returns \<open>False\<close>.
\<close>

theorem can_move_iff:
  assumes "wf_table t"
  shows "can_move t = Inr ((\<exists>r<4. \<exists>c<4. t ! r ! c = 0) \<or>
                           (\<exists>r<4. \<exists>c<3. t ! r ! c = t ! r ! (c + 1)) \<or>
                           (\<exists>c<4. \<exists>r<3. t ! r ! c = t ! (r + 1) ! c)) \<and>
         can_move [[2, 4, 2, 4], [4, 2, 4, 2], [2, 4, 2, 4], [4, 2, 4, 2]] = Inr False"
proof
  from empty_indexes_nonempty [OF assms] obtain indexes where
    "get_empty_indexes t = Inr indexes" "indexes \<noteq> [] \<longleftrightarrow> (\<exists>r<4. \<exists>c<4. t ! r ! c = 0)"
    by blast
  then show "can_move t = Inr ((\<exists>r<4. \<exists>c<4. t ! r ! c = 0) \<or>
                           (\<exists>r<4. \<exists>c<3. t ! r ! c = t ! r ! (c + 1)) \<or>
                           (\<exists>c<4. \<exists>r<3. t ! r ! c = t ! (r + 1) ! c))"
    by (auto simp add: can_move_def can_move_horizontally_closed [OF assms]
        can_move_vertically_closed [OF assms])
next
  show "can_move [[2, 4, 2, 4], [4, 2, 4, 2], [2, 4, 2, 4], [4, 2, 4, 2]] = Inr False"
    by code_simp
qed

theorem can_move_iff_witness:
  "wf_table [[2, 4, 2, 4], [4, 2, 4, 2], [2, 4, 2, 4], [4, 2, 4, 8]] \<and>
   can_move [[2, 4, 2, 4], [4, 2, 4, 2], [2, 4, 2, 4], [4, 2, 4, 8]] = Inr False"
  using can_move_iff [of "[[2, 4, 2, 4], [4, 2, 4, 2], [2, 4, 2, 4], [4, 2, 4, 8]]"]
  by (simp add: wf_table_def ex_lt4 ex_lt3)

section \<open>Inserting a block\<close>

lemma choice_in: "seq \<noteq> [] \<Longrightarrow> \<exists>x\<in>set seq. choice seq k = Inr x"
  by (simp add: choice_def)

lemma insert_block_cases:
  assumes "wf_table t"
  shows "((\<forall>r<4. \<forall>c<4. t ! r ! c \<noteq> 0) \<and> insert_block k1 k2 t = Inr t) \<or>
         (\<exists>r<4. \<exists>c<4. \<exists>v\<in>{2, 4}. t ! r ! c = 0 \<and>
            insert_block k1 k2 t = Inr (t[r := (t ! r)[c := v]]))"
proof -
  from empty_indexes_nonempty [OF assms] obtain indexes where
    e: "get_empty_indexes t = Inr indexes"
    and n: "indexes \<noteq> [] \<longleftrightarrow> (\<exists>r<4. \<exists>c<4. t ! r ! c = 0)"
    and m: "\<forall>(r, c)\<in>set indexes. r \<in> set [0, 1, 2, 3] \<and> c \<in> set [0, 1, 2, 3] \<and>
              t ! nat r ! nat c = 0"
    by blast
  show ?thesis
  proof (cases "indexes = []")
    case True
    with e n show ?thesis by (simp add: insert_block_def)
  next
    case False
    then obtain p where p: "p \<in> set indexes" "choice indexes k1 = Inr p"
      using choice_in by blast
    obtain r c where rc: "p = (r, c)" by (cases p)
    from m p(1) rc have r: "r \<in> set [0, 1, 2, 3]" and c: "c \<in> set [0, 1, 2, 3]"
      and z: "t ! nat r ! nat c = 0" by auto
    obtain v where v: "v \<in> set [2, 4 :: int]" "choice [2, 4] k2 = Inr v"
      using choice_in [of "[2, 4 :: int]" k2] by auto
    have "insert_block k1 k2 t = Inr (t[nat r := (t ! nat r)[nat c := v]])"
      using e False p(2) rc v(2) by (simp add: insert_block_def wf_set_cell [OF assms r c])
    moreover from r have "nat r < 4" by auto
    moreover from c have "nat c < 4" by auto
    moreover from v(1) have "v \<in> {2, 4}" by simp
    ultimately show ?thesis using z by blast
  qed
qed

lemma cell_update:
  assumes "wf_table t" "r0 < 4" "c0 < 4" "r < 4" "c < 4"
  shows "t[r0 := (t ! r0)[c0 := v]] ! r ! c = (if r = r0 \<and> c = c0 then v else t ! r ! c)"
  using assms by (auto simp add: wf_table_def list_all_length nth_list_update)

lemma wf_cell_update: "wf_table t \<Longrightarrow> wf_table (t[r := (t ! r)[c := v]])"
  by (cases "r < 4") (auto simp add: wf_table_def list_all_length nth_list_update)

text \<open>
  C8. On a table of four rows of four blocks, whatever the generator draws:
  when no block is \<open>0\<close>, \<^verbatim>\<open>insert_block\<close> returns normally and leaves the table as
  it is; when exactly one block is \<open>0\<close>, it returns normally, writes \<open>2\<close> or \<open>4\<close> into
  that position and leaves every other block as it is.
\<close>

theorem insert_block_full_or_single:
  assumes "wf_table t"
  shows "((\<forall>r<4. \<forall>c<4. t ! r ! c \<noteq> 0) \<longrightarrow> insert_block k1 k2 t = Inr t) \<and>
         (\<forall>r0<4. \<forall>c0<4.
            t ! r0 ! c0 = 0 \<and> (\<forall>r<4. \<forall>c<4. (r, c) \<noteq> (r0, c0) \<longrightarrow> t ! r ! c \<noteq> 0) \<longrightarrow>
            (\<exists>t'. insert_block k1 k2 t = Inr t' \<and> wf_table t' \<and>
                  t' ! r0 ! c0 \<in> {2, 4} \<and>
                  (\<forall>r<4. \<forall>c<4. (r, c) \<noteq> (r0, c0) \<longrightarrow> t' ! r ! c = t ! r ! c)))"
proof (intro conjI impI allI)
  assume "\<forall>r<4. \<forall>c<4. t ! r ! c \<noteq> 0"
  with insert_block_cases [OF assms, of k1 k2] show "insert_block k1 k2 t = Inr t" by blast
next
  fix r0 c0 :: nat
  assume r0: "r0 < 4" and c0: "c0 < 4"
    and h: "t ! r0 ! c0 = 0 \<and> (\<forall>r<4. \<forall>c<4. (r, c) \<noteq> (r0, c0) \<longrightarrow> t ! r ! c \<noteq> 0)"
  from insert_block_cases [OF assms, of k1 k2] h r0 c0
  obtain r c v where rc: "r < 4" "c < 4" "v \<in> {2, 4}" "t ! r ! c = 0"
    and i: "insert_block k1 k2 t = Inr (t[r := (t ! r)[c := v]])" by blast
  from h rc have same: "r = r0" "c = c0" by auto
  let ?t' = "t[r0 := (t ! r0)[c0 := v]]"
  have "insert_block k1 k2 t = Inr ?t'" using i same by simp
  moreover have "wf_table ?t'" using assms by (rule wf_cell_update)
  moreover have "?t' ! r0 ! c0 \<in> {2, 4}"
    using rc(3) by (simp add: cell_update [OF assms r0 c0 r0 c0])
  moreover have "\<forall>r<4. \<forall>c<4. (r, c) \<noteq> (r0, c0) \<longrightarrow> ?t' ! r ! c = t ! r ! c"
    by (simp add: cell_update [OF assms r0 c0])
  ultimately show "\<exists>t'. insert_block k1 k2 t = Inr t' \<and> wf_table t' \<and>
                  t' ! r0 ! c0 \<in> {2, 4} \<and>
                  (\<forall>r<4. \<forall>c<4. (r, c) \<noteq> (r0, c0) \<longrightarrow> t' ! r ! c = t ! r ! c)"
    by blast
qed

theorem insert_block_full_or_single_witness:
  "wf_table [[2, 4, 2, 4], [4, 2, 4, 2], [2, 4, 2, 4], [4, 2, 4, 2]] \<and>
   insert_block 5 3 [[2, 4, 2, 4], [4, 2, 4, 2], [2, 4, 2, 4], [4, 2, 4, 2]]
     = Inr [[2, 4, 2, 4], [4, 2, 4, 2], [2, 4, 2, 4], [4, 2, 4, 2]] \<and>
   wf_table [[2, 4, 2, 4], [4, 2, 0, 2], [2, 4, 2, 4], [4, 2, 4, 2]] \<and>
   (\<exists>t'. insert_block 5 3 [[2, 4, 2, 4], [4, 2, 0, 2], [2, 4, 2, 4], [4, 2, 4, 2]] = Inr t' \<and>
         wf_table t' \<and> t' ! 1 ! 2 \<in> {2, 4} \<and>
         (\<forall>r<4. \<forall>c<4. (r, c) \<noteq> (1, 2) \<longrightarrow>
            t' ! r ! c = [[2, 4, 2, 4], [4, 2, 0, 2], [2, 4, 2, 4], [4, 2, 4, 2]] ! r ! c))"
proof -
  have full: "wf_table [[2, 4, 2, 4], [4, 2, 4, 2], [2, 4, 2, 4], [4, 2, 4, 2]]"
    and single: "wf_table [[2, 4, 2, 4], [4, 2, 0, 2], [2, 4, 2, 4], [4, 2, 4, 2]]"
    by (simp_all add: wf_table_def)
  have "insert_block 5 3 [[2, 4, 2, 4], [4, 2, 4, 2], [2, 4, 2, 4], [4, 2, 4, 2]]
     = Inr [[2, 4, 2, 4], [4, 2, 4, 2], [2, 4, 2, 4], [4, 2, 4, 2]]"
    using insert_block_full_or_single [OF full, of 5 3] by (simp add: all_lt4)
  moreover have "\<exists>t'. insert_block 5 3 [[2, 4, 2, 4], [4, 2, 0, 2], [2, 4, 2, 4], [4, 2, 4, 2]] = Inr t' \<and>
         wf_table t' \<and> t' ! 1 ! 2 \<in> {2, 4} \<and>
         (\<forall>r<4. \<forall>c<4. (r, c) \<noteq> (1, 2) \<longrightarrow>
            t' ! r ! c = [[2, 4, 2, 4], [4, 2, 0, 2], [2, 4, 2, 4], [4, 2, 4, 2]] ! r ! c)"
  proof -
    have "(1::nat) < 4" "(2::nat) < 4" by simp_all
    moreover have "[[2, 4, 2, 4], [4, 2, 0, 2], [2, 4, 2, 4], [4, 2, 4, 2 :: int]] ! 1 ! 2 = 0 \<and>
      (\<forall>r<4. \<forall>c<4. (r, c) \<noteq> (1, 2) \<longrightarrow>
         [[2, 4, 2, 4], [4, 2, 0, 2], [2, 4, 2, 4], [4, 2, 4, 2 :: int]] ! r ! c \<noteq> 0)"
      by (simp add: all_lt4)
    ultimately show ?thesis
      using insert_block_full_or_single [OF single, of 5 3] by blast
  qed
  ultimately show ?thesis using full single by blast
qed

section \<open>The invariant of the table\<close>

lemma is_power_of_two_iff: "is_power_of_two v \<longleftrightarrow> (\<exists>k. v = 2 ^ k)"
proof
  show "is_power_of_two v \<Longrightarrow> \<exists>k. v = 2 ^ k"
  proof (induction v rule: is_power_of_two.induct)
    case (1 v)
    show ?case
    proof (cases "v < 2")
      case True
      with "1.prems" have "v = 2 ^ 0" by (simp add: is_power_of_two.simps)
      then show ?thesis by blast
    next
      case False
      with "1.prems" have even: "v mod 2 = 0" and half: "is_power_of_two (v div 2)"
        by (simp_all add: is_power_of_two.simps [of v])
      from "1.IH" [OF False half] obtain k where "v div 2 = 2 ^ k" by blast
      with even have "v = 2 ^ Suc k" by auto
      then show ?thesis by blast
    qed
  qed
next
  assume "\<exists>k. v = 2 ^ k"
  then obtain k where "v = 2 ^ k" by blast
  then show "is_power_of_two v"
  proof (induction k arbitrary: v)
    case 0
    then show ?case by (simp add: is_power_of_two.simps)
  next
    case (Suc k)
    have "(2::int) \<le> 2 ^ Suc k" by (simp add: self_le_power)
    moreover have "is_power_of_two (2 ^ k)" by (rule Suc.IH) simp
    moreover have "\<not> (2::int) ^ k < 1" by (simp add: not_less)
    ultimately show ?case using Suc.prems by (simp add: is_power_of_two.simps [of "2 * 2 ^ k"])
  qed
qed

lemma valid_block_iff: "valid_block v \<longleftrightarrow> v = 0 \<or> (\<exists>k\<ge>1. v = 2 ^ k)"
proof -
  have "(2 \<le> v \<and> (\<exists>k. v = 2 ^ k)) \<longleftrightarrow> (\<exists>k\<ge>1. v = 2 ^ k)"
  proof
    assume "2 \<le> v \<and> (\<exists>k. v = 2 ^ k)"
    then obtain k where k: "v = 2 ^ k" "2 \<le> v" by blast
    then have "k \<noteq> 0" by (cases k) auto
    with k(1) show "\<exists>k\<ge>1. v = 2 ^ k" by (intro exI [of _ k]) simp
  next
    assume "\<exists>k\<ge>1. v = 2 ^ k"
    then obtain k where k: "1 \<le> k" "v = 2 ^ k" by blast
    then have "(2::int) ^ 1 \<le> 2 ^ k" by (intro power_increasing) simp_all
    with k show "2 \<le> v \<and> (\<exists>k. v = 2 ^ k)" by auto
  qed
  then show ?thesis by (simp add: valid_block_def is_power_of_two_iff)
qed

lemma valid_block_zero [simp]: "valid_block 0"
  by (simp add: valid_block_def)

lemma valid_block_double: "valid_block v \<Longrightarrow> valid_block (v * 2)"
  unfolding valid_block_iff
proof (elim disjE exE conjE)
  assume "v = 0" then show "v * 2 = 0 \<or> (\<exists>k\<ge>1. v * 2 = 2 ^ k)" by simp
next
  fix k :: nat assume "1 \<le> k" "v = 2 ^ k"
  then have "1 \<le> Suc k \<and> v * 2 = 2 ^ Suc k" by simp
  then show "v * 2 = 0 \<or> (\<exists>k\<ge>1. v * 2 = 2 ^ k)" by blast
qed

lemma valid_block_two: "valid_block 2"
  by (simp add: valid_block_def is_power_of_two.simps)

lemma valid_block_four: "valid_block 4"
  using valid_block_double [OF valid_block_two] by simp

lemma valid_merge_cells: "list_all valid_block l \<Longrightarrow> list_all valid_block (merge_cells p l)"
  by (induction p l rule: merge_cells.induct) (simp_all add: valid_block_double)

lemma valid_slide_line: "list_all valid_block l \<Longrightarrow> list_all valid_block (slide_line l)"
  by (auto simp add: slide_line_def list_all_iff)

lemma valid_toward:
  assumes "\<And>l. list_all valid_block l \<Longrightarrow> list_all valid_block (f l)"
    and "list_all valid_block l"
  shows "list_all valid_block (toward d f l)"
  using assms(1) [of l] assms(1) [of "rev l"] assms(2) by (simp add: toward_def list_all_iff)

lemma valid_columns:
  "wf_table t \<Longrightarrow> list_all (list_all P) (columns t) = list_all (list_all P) t"
  by (erule wf_table_cellsE) (auto simp add: columns_def column_def)

lemma invariant_lines: "table_invariant t \<Longrightarrow> table_invariant (lines d t)"
  by (simp add: table_invariant_def lines_def wf_columns valid_columns)

lemma invariant_map:
  assumes "table_invariant t" "\<And>l. length (f l) = length l"
    and "\<And>l. list_all valid_block l \<Longrightarrow> list_all valid_block (f l)"
  shows "table_invariant (map f t)"
  using assms(1) assms(3) by (auto simp add: table_invariant_def wf_map assms(2) list_all_iff)

lemma invariant_cell_update:
  assumes "table_invariant t" "valid_block v"
  shows "table_invariant (t[r := (t ! r)[c := v]])"
proof -
  have wf: "wf_table t" and ok: "list_all (list_all valid_block) t"
    using assms(1) by (simp_all add: table_invariant_def)
  have "list_all (list_all valid_block) (t[r := (t ! r)[c := v]])"
  proof (cases "r < length t")
    case True
    then have "list_all valid_block (t ! r)" using ok by (simp add: list_all_length)
    then have "list_all valid_block ((t ! r)[c := v])"
      using assms(2) set_update_subset_insert [of "t ! r" c v] by (auto simp add: list_all_iff)
    then show ?thesis
      using ok set_update_subset_insert [of t r "(t ! r)[c := v]"] by (auto simp add: list_all_iff)
  next
    case False
    then show ?thesis using ok by (simp add: list_update_beyond)
  qed
  with wf show ?thesis by (simp add: table_invariant_def wf_cell_update)
qed

text \<open>
  C7. The invariant of the table is that it has four rows of four blocks and that every
  block is \<open>0\<close> or a power of two that is at least \<open>2\<close>. \<^verbatim>\<open>new_table\<close> satisfies
  it. On a table that satisfies it, \<^verbatim>\<open>push_blocks\<close> in each of the four directions and
  \<^verbatim>\<open>insert_block\<close> under any draws return normally, and the table they leave
  satisfies it again.
\<close>

theorem table_invariant_kept:
  assumes "table_invariant t" "d \<in> set [''W'', ''A'', ''S'', ''D'']"
  shows "table_invariant new_table \<and>
         (\<exists>t' score moved. push_blocks t d = Inr (t', score, moved) \<and> table_invariant t') \<and>
         (\<exists>t'. insert_block k1 k2 t = Inr t' \<and> table_invariant t')"
proof (intro conjI)
  show "table_invariant new_table"
    by (simp add: table_invariant_def wf_table_def new_table_def)
next
  let ?M = "map (toward d (merge_cells False)) (lines d t)"
  let ?S = "map (toward d slide_line) ?M"
  have wf: "wf_table t" using assms(1) by (simp add: table_invariant_def)
  have "table_invariant (lines d t)" using assms(1) by (rule invariant_lines)
  then have "table_invariant ?M"
    by (rule invariant_map) (simp_all add: length_toward valid_toward valid_merge_cells)
  then have "table_invariant ?S"
    by (rule invariant_map) (simp_all add: length_toward valid_toward valid_slide_line)
  then have "table_invariant (lines d ?S)" by (rule invariant_lines)
  then show "\<exists>t' score moved. push_blocks t d = Inr (t', score, moved) \<and> table_invariant t'"
    by (simp add: push_blocks_lines [OF wf assms(2)])
next
  have wf: "wf_table t" using assms(1) by (simp add: table_invariant_def)
  from insert_block_cases [OF wf, of k1 k2]
  show "\<exists>t'. insert_block k1 k2 t = Inr t' \<and> table_invariant t'"
  proof (elim disjE conjE exE bexE)
    assume "insert_block k1 k2 t = Inr t"
    with assms(1) show ?thesis by simp
  next
    fix r c v assume v: "v \<in> {2, 4 :: int}"
      and i: "insert_block k1 k2 t = Inr (t[r := (t ! r)[c := v]])"
    from v have "valid_block v" by (auto simp add: valid_block_two valid_block_four)
    with assms(1) have "table_invariant (t[r := (t ! r)[c := v]])"
      by (rule invariant_cell_update)
    with i show ?thesis by simp
  qed
qed

theorem table_invariant_kept_witness:
  "table_invariant [[4, 2, 2, 0], [2, 2, 2, 0], [2, 2, 2, 2], [0, 2, 2, 2]] \<and>
   ''W'' \<in> set [''W'', ''A'', ''S'', ''D''] \<and>
   table_invariant new_table \<and>
   (\<exists>t' score moved.
      push_blocks [[4, 2, 2, 0], [2, 2, 2, 0], [2, 2, 2, 2], [0, 2, 2, 2]] ''W''
        = Inr (t', score, moved) \<and> table_invariant t') \<and>
   (\<exists>t'. insert_block 5 3 [[4, 2, 2, 0], [2, 2, 2, 0], [2, 2, 2, 2], [0, 2, 2, 2]] = Inr t' \<and>
         table_invariant t')"
  using table_invariant_kept
    [of "[[4, 2, 2, 0], [2, 2, 2, 0], [2, 2, 2, 2], [0, 2, 2, 2]]" "''W''" 5 3]
  by (simp add: table_invariant_def wf_table_def valid_block_two valid_block_four)

end
